theory Spec2Isabelle
  imports Complex_Main
begin

section \<open>Graph, frontier and the helpers the algorithms call\<close>

text \<open>
  The graph is an external, read-only collaborator: vertex identifiers are the dense range
  \<open>[0, n)\<close> and every vertex enumerates its neighbours. It is taken here as the list of the
  neighbour lists, \<open>g ! v\<close> being the neighbours of \<open>v\<close> in enumeration order. Reading
  outside an array is undefined behaviour in the source; the theorems below that depend on
  it assume valid identifiers, as the source does.
\<close>

type_synonym graph = "nat list list"

definition get_number_of_vertices :: "graph \<Rightarrow> nat" where
  "get_number_of_vertices g = length g"

definition get_number_of_neighbors :: "graph \<Rightarrow> nat \<Rightarrow> nat" where
  "get_number_of_neighbors g v = length (g ! v)"

text \<open>
  Modelled from the spec: the Frontier container (section 4.1), whose code is not among the
  source files. \<open>sequence start count\<close> replaces the contents with the range
  \<open>[start, start + count)\<close>, \<open>push_back\<close> appends one identifier, \<open>is_empty\<close> holds iff no
  identifier remains. The container does not deduplicate.
\<close>

type_synonym frontier = "nat list"

definition sequence :: "nat \<Rightarrow> nat \<Rightarrow> frontier" where
  "sequence start count = [start..<start + count]"

definition push_back :: "frontier \<Rightarrow> nat \<Rightarrow> frontier" where
  "push_back f v = f @ [v]"

definition is_empty :: "frontier \<Rightarrow> bool" where
  "is_empty f = (f = [])"

text \<open>
  Modelled from the spec: the atomic read-modify-write primitives (section 5), whose code is
  not among the source files. Each returns the value the cell held before the operation (the
  source binds the results to \<open>old_degrees\<close> and \<open>old_label\<close>) together with the updated
  array. \<open>atomic_cas\<close> stores the new value only if the cell holds the compared one.
\<close>

definition atomic_add :: "'a::plus list \<Rightarrow> nat \<Rightarrow> 'a \<Rightarrow> 'a \<times> 'a list" where
  "atomic_add xs i v = (xs ! i, xs[i := xs ! i + v])"

definition atomic_cas :: "'a list \<Rightarrow> nat \<Rightarrow> 'a \<Rightarrow> 'a \<Rightarrow> 'a \<times> 'a list" where
  "atomic_cas xs i cmp v = (xs ! i, if xs ! i = cmp then xs[i := v] else xs)"

text \<open>
  The bulk primitives of the parallel library, on a list: \<open>resize\<close> keeps a prefix and pads
  with a default, \<open>fill\<close> overwrites the cells \<open>[first, last)\<close>, \<open>transform_index\<close> writes
  \<open>f i\<close> to cell \<open>i\<close> for the counting range \<open>[0, n)\<close>, and \<open>transform_prefix\<close> maps the
  first \<open>n\<close> cells in place. A buffer shorter than the range written is undefined behaviour
  in the source.
\<close>

definition resize :: "'a list \<Rightarrow> nat \<Rightarrow> 'a \<Rightarrow> 'a list" where
  "resize xs n d = take n xs @ replicate (n - length xs) d"

definition fill :: "'a list \<Rightarrow> nat \<Rightarrow> nat \<Rightarrow> 'a \<Rightarrow> 'a list" where
  "fill xs first lst v = take first xs @ replicate (lst - first) v @ drop lst xs"

definition fill_n :: "'a list \<Rightarrow> nat \<Rightarrow> 'a \<Rightarrow> 'a list" where
  "fill_n xs n v = fill xs 0 n v"

definition transform_index :: "nat \<Rightarrow> (nat \<Rightarrow> 'a) \<Rightarrow> 'a list \<Rightarrow> 'a list" where
  "transform_index n f xs = map f [0..<n] @ drop n xs"

definition transform_prefix :: "nat \<Rightarrow> ('a \<Rightarrow> 'a) \<Rightarrow> 'a list \<Rightarrow> 'a list" where
  "transform_prefix n f xs = map f (take n xs) @ drop n xs"

section \<open>The operators and the enactor\<close>

text \<open>
  Modelled from the spec: the Advance operator (section 4.2), whose code is not among the
  source files. It visits every edge leaving every element of the input frontier and calls
  the predicate on (source, destination); where the predicate returns true the destination
  is appended to the output frontier. The spec promises that every edge is visited at least
  once; the model visits every edge exactly once for each occurrence of its source in the
  frontier, and what is proved of k-core's result below depends on that. The predicates of both algorithms ignore the edge
  identifier and the weight, which are left out. The lanes run in an unspecified order and
  coordinate by atomic operations only; the model runs the predicate calls one after the
  other, \<open>advance_edges\<close> taking them in the order of the frontier and of the neighbour
  lists, and the theorems below are about that execution.
  \<open>advance_execute\<close> returns the active frontier after the call: the output frontier, or
  the input frontier when the call's last argument is false (the backward phase of
  betweenness centrality keeps its frontier that way).
\<close>

fun advance_edges ::
  "(nat \<Rightarrow> nat \<Rightarrow> 's \<Rightarrow> bool \<times> 's) \<Rightarrow> (nat \<times> nat) list \<Rightarrow> 's \<Rightarrow> frontier \<times> 's" where
  "advance_edges f [] st = ([], st)"
| "advance_edges f ((src, dst) # es) st =
     (case f src dst st of (keep, st1) \<Rightarrow>
        (case advance_edges f es st1 of (out, st2) \<Rightarrow>
           (if keep then dst # out else out, st2)))"

definition frontier_edges :: "graph \<Rightarrow> frontier \<Rightarrow> (nat \<times> nat) list" where
  "frontier_edges g fr = concat (map (\<lambda>src. map (Pair src) (g ! src)) fr)"

definition advance_execute ::
  "graph \<Rightarrow> (nat \<Rightarrow> nat \<Rightarrow> 's \<Rightarrow> bool \<times> 's) \<Rightarrow> bool \<Rightarrow> frontier \<Rightarrow> 's \<Rightarrow> frontier \<times> 's" where
  "advance_execute g f swap_buffers fr st =
     (case advance_edges f (frontier_edges g fr) st of (out, st') \<Rightarrow>
        (if swap_buffers then out else fr, st'))"

text \<open>
  Modelled from the spec: the Filter operator (section 4.3), whose code is not among the
  source files. The predicate is evaluated exactly once per frontier element, here in the
  order of the frontier, and the output frontier, which becomes the active one, holds the
  elements for which it returned true.
\<close>

fun filter_execute :: "(nat \<Rightarrow> 's \<Rightarrow> bool \<times> 's) \<Rightarrow> frontier \<Rightarrow> 's \<Rightarrow> frontier \<times> 's" where
  "filter_execute f [] st = ([], st)"
| "filter_execute f (v # vs) st =
     (case f v st of (keep, st1) \<Rightarrow>
        (case filter_execute f vs st1 of (out, st2) \<Rightarrow>
           (if keep then v # out else out, st2)))"

text \<open>
  Modelled from the spec: the Enactor's state and driver (sections 3 and 4.4), whose code is
  not among the source files. The run state is the problem, the active frontier and the
  iteration counter, which starts at 0. After \<open>prepare_frontier\<close>, each round invokes
  \<open>loop\<close>, increments the iteration counter and then evaluates \<open>is_converged\<close>, which may
  change the state; the run stops when it returns true. There is no bound on the number of
  rounds, so a run that never converges has the value \<open>None\<close>.
\<close>

record 'p enactor =
  problem :: 'p
  frontier :: frontier
  iteration :: nat

partial_function (option) enact_rounds ::
  "(('p, 'z) enactor_scheme \<Rightarrow> ('p, 'z) enactor_scheme option) \<Rightarrow>
   (('p, 'z) enactor_scheme \<Rightarrow> bool \<times> ('p, 'z) enactor_scheme) \<Rightarrow>
   ('p, 'z) enactor_scheme \<Rightarrow> ('p, 'z) enactor_scheme option" where
  "enact_rounds loop is_converged E =
     (case loop E of
        None \<Rightarrow> None
      | Some E1 \<Rightarrow>
          (case is_converged (E1\<lparr>iteration := iteration E1 + 1\<rparr>) of (converged, E2) \<Rightarrow>
             if converged then Some E2 else enact_rounds loop is_converged E2))"

declare enact_rounds.simps [code]

section \<open>k-core decomposition (kcore.hxx)\<close>

text \<open>
  The arrays hold C++ \<open>int\<close> and \<open>bool\<close>. The counters are modelled as unbounded integers:
  a remaining degree starts at the vertex's neighbour count and is decremented at most once
  per edge visited, and \<open>k\<close> never passes the largest neighbour count by more than one, so
  no value leaves the machine range. On an undirected graph a remaining degree never falls
  below 0; on other graphs it can, which the comparison in \<open>advance_op\<close> takes into
  account.
\<close>

record kcore_problem =
  k_cores :: "int list"
  degrees :: "int list"
  deleted :: "bool list"
  to_be_deleted :: "bool list"

definition kcore_problem_t :: "int list \<Rightarrow> kcore_problem" where
  "kcore_problem_t result_k_cores =
     \<lparr>k_cores = result_k_cores, degrees = [], deleted = [], to_be_deleted = []\<rparr>"

definition kcore_init :: "graph \<Rightarrow> kcore_problem \<Rightarrow> kcore_problem" where
  "kcore_init g P =
     (let n_vertices = get_number_of_vertices g in
      P\<lparr>degrees := resize (degrees P) n_vertices 0,
        deleted := resize (deleted P) n_vertices False,
        to_be_deleted := resize (to_be_deleted P) n_vertices False\<rparr>)"

definition kcore_reset :: "graph \<Rightarrow> kcore_problem \<Rightarrow> kcore_problem" where
  "kcore_reset g P =
     (let n_vertices = get_number_of_vertices g;
          P1 = P\<lparr>k_cores := fill (k_cores P) 0 n_vertices 0\<rparr>;
          P2 = P1\<lparr>to_be_deleted := fill (to_be_deleted P1) 0 (length (to_be_deleted P1)) False\<rparr>;
          get_degree = (\<lambda>i. int (get_number_of_neighbors g i));
          P3 = P2\<lparr>degrees := transform_index n_vertices get_degree (degrees P2)\<rparr>;
          mark_zero_degrees = (\<lambda>i. if degrees P3 ! i = 0 then True else False)
      in P3\<lparr>deleted := transform_index n_vertices mark_zero_degrees (deleted P3)\<rparr>)"

definition kcore_prepare_frontier ::
  "graph \<Rightarrow> kcore_problem enactor \<Rightarrow> kcore_problem enactor" where
  "kcore_prepare_frontier g E = E\<lparr>frontier := sequence 0 (get_number_of_vertices g)\<rparr>"

text \<open>
  The threshold \<open>k\<close> is the iteration counter plus one. The counter's declaration is not
  among the source files; the source prints it with \<open>%u\<close>, so it has an unsigned type, and
  in \<open>degrees[source] > k\<close> C++ converts the signed counter of the vertex to that type
  before comparing. A negative remaining degree becomes a value of at least \<open>2^31\<close> and so
  compares greater than every threshold a run reaches, which \<open>unsigned_greater\<close> writes
  out. In the test \<open>old_degrees != (k + 1)\<close> of \<open>filter_op\<close> the conversion changes nothing:
  a negative old value differs from \<open>k + 1\<close> with or without it.
\<close>

definition unsigned_greater :: "int \<Rightarrow> nat \<Rightarrow> bool" where
  "unsigned_greater d k \<longleftrightarrow> d < 0 \<or> int k < d"

definition advance_op :: "nat \<Rightarrow> nat \<Rightarrow> nat \<Rightarrow> kcore_problem \<Rightarrow> bool \<times> kcore_problem" where
  "advance_op k source neighbor P =
     (if deleted P ! source = True then (False, P)
      else if unsigned_greater (degrees P ! source) k then (False, P)
      else
        (let P1 = P\<lparr>k_cores := (k_cores P)[source := int k]\<rparr>;
             P2 = P1\<lparr>to_be_deleted := (to_be_deleted P1)[source := True]\<rparr>
         in if deleted P2 ! neighbor = True then (False, P2) else (True, P2)))"

definition filter_op :: "nat \<Rightarrow> nat \<Rightarrow> kcore_problem \<Rightarrow> bool \<times> kcore_problem" where
  "filter_op k vertex P =
     (if deleted P ! vertex = True then (False, P)
      else
        (case atomic_add (degrees P) vertex (- 1) of (old_degrees, degrees') \<Rightarrow>
           (if old_degrees \<noteq> int k + 1 then (False, P\<lparr>degrees := degrees'\<rparr>)
            else (True, P\<lparr>degrees := degrees'\<rparr>))))"

definition mark_deleted :: "graph \<Rightarrow> kcore_problem \<Rightarrow> kcore_problem" where
  "mark_deleted g P =
     P\<lparr>deleted := transform_index (get_number_of_vertices g)
                     (\<lambda>i. deleted P ! i \<or> to_be_deleted P ! i) (deleted P)\<rparr>"

partial_function (option) kcore_while ::
  "graph \<Rightarrow> nat \<Rightarrow> frontier \<Rightarrow> kcore_problem \<Rightarrow> (frontier \<times> kcore_problem) option" where
  "kcore_while g k f P =
     (if is_empty f then Some (f, P)
      else
        (case advance_execute g (advance_op k) True f P of (f1, P1) \<Rightarrow>
           (case filter_execute (filter_op k) f1 (mark_deleted g P1) of (f2, P2) \<Rightarrow>
              kcore_while g k f2 P2)))"

declare kcore_while.simps [code]

definition kcore_loop :: "graph \<Rightarrow> kcore_problem enactor \<Rightarrow> kcore_problem enactor option" where
  "kcore_loop g E =
     (let k = iteration E + 1 in
      case kcore_while g k (frontier E) (problem E) of
        None \<Rightarrow> None
      | Some (f, P) \<Rightarrow> Some (E\<lparr>problem := P, frontier := f\<rparr>))"

definition kcore_is_converged ::
  "graph \<Rightarrow> kcore_problem enactor \<Rightarrow> bool \<times> kcore_problem enactor" where
  "kcore_is_converged g E =
     (let n_vertices = get_number_of_vertices g;
          graph_empty = list_all (\<lambda>b. b) (deleted (problem E))
      in (graph_empty, E\<lparr>frontier := sequence 0 n_vertices\<rparr>))"

definition kcore_enact :: "graph \<Rightarrow> kcore_problem \<Rightarrow> kcore_problem enactor option" where
  "kcore_enact g P =
     enact_rounds (kcore_loop g) (kcore_is_converged g)
       (kcore_prepare_frontier g \<lparr>problem = P, frontier = [], iteration = 0\<rparr>)"

definition kcore_run :: "graph \<Rightarrow> int list \<Rightarrow> kcore_problem enactor option" where
  "kcore_run g result_k_cores =
     kcore_enact g (kcore_reset g (kcore_init g (kcore_problem_t result_k_cores)))"

section \<open>Single-source betweenness centrality (bc.hxx)\<close>

text \<open>
  The weights (\<open>sigmas\<close>, \<open>bc_values\<close>, \<open>deltas\<close>) are floating-point numbers in the
  source and real numbers here: the theorems below are about which cells an operator
  changes and by which expression, not about rounding. Labels and the depth counter are
  machine integers, modelled as unbounded integers; a label is -1 or a distance below the
  vertex count, and the depth counter starts below the number of rounds run.
\<close>

record bc_problem =
  single_source :: nat
  sigmas :: "real list"
  bc_values :: "real list"
  labels :: "int list"
  deltas :: "real list"

record bc_enactor = "bc_problem enactor" +
  forward :: bool
  depth :: int

definition bc_problem_t :: "nat \<Rightarrow> real list \<Rightarrow> real list \<Rightarrow> bc_problem" where
  "bc_problem_t param_single_source result_sigmas result_bc_values =
     \<lparr>single_source = param_single_source, sigmas = result_sigmas,
      bc_values = result_bc_values, labels = [], deltas = []\<rparr>"

definition bc_init :: "graph \<Rightarrow> bc_problem \<Rightarrow> bc_problem" where
  "bc_init g P =
     (let n_vertices = get_number_of_vertices g in
      P\<lparr>labels := resize (labels P) n_vertices 0,
        deltas := resize (deltas P) n_vertices 0\<rparr>)"

definition bc_reset :: "graph \<Rightarrow> bc_problem \<Rightarrow> bc_problem" where
  "bc_reset g P =
     (let n_vertices = get_number_of_vertices g;
          P1 = P\<lparr>sigmas := fill_n (sigmas P) n_vertices 0\<rparr>;
          P2 = P1\<lparr>bc_values := fill_n (bc_values P1) n_vertices 0\<rparr>;
          P3 = P2\<lparr>labels := fill_n (labels P2) n_vertices (- 1)\<rparr>;
          P4 = P3\<lparr>deltas := fill_n (deltas P3) n_vertices 0\<rparr>;
          P5 = P4\<lparr>sigmas := fill (sigmas P4) (single_source P4) (single_source P4 + 1) 1\<rparr>
      in P5\<lparr>labels := fill (labels P5) (single_source P5) (single_source P5 + 1) 0\<rparr>)"

definition bc_enactor_t :: "bc_problem \<Rightarrow> bc_enactor" where
  "bc_enactor_t P = \<lparr>problem = P, frontier = [], iteration = 0, forward = True, depth = 0\<rparr>"

definition bc_prepare_frontier :: "bc_enactor \<Rightarrow> bc_enactor" where
  "bc_prepare_frontier E = E\<lparr>frontier := push_back (frontier E) (single_source (problem E))\<rparr>"

definition forward_op :: "nat \<Rightarrow> nat \<Rightarrow> bc_problem \<Rightarrow> bool \<times> bc_problem" where
  "forward_op src dst P =
     (let new_label = labels P ! src + 1 in
      case atomic_cas (labels P) dst (- 1) new_label of (old_label, labels') \<Rightarrow>
        (let P1 = P\<lparr>labels := labels'\<rparr> in
         if old_label \<noteq> - 1 \<and> new_label \<noteq> old_label then (False, P1)
         else
           (case atomic_add (sigmas P1) dst (sigmas P1 ! src) of (old_sigma, sigmas') \<Rightarrow>
              (old_label = - 1, P1\<lparr>sigmas := sigmas'\<rparr>))))"

definition backward_op :: "nat \<Rightarrow> int \<Rightarrow> nat \<Rightarrow> nat \<Rightarrow> bc_problem \<Rightarrow> bool \<times> bc_problem" where
  "backward_op single_source' depth' src dst P =
     (if src = single_source' then (False, P)
      else
        (let s_label = labels P ! src in
         if labels P ! src \<noteq> depth' then (False, P)
         else
           (let d_label = labels P ! dst in
            if d_label \<noteq> s_label + 1 then (False, P)
            else
              (let update = sigmas P ! src / sigmas P ! dst * (1 + deltas P ! dst) in
               case atomic_add (deltas P) src update of (old_delta, deltas') \<Rightarrow>
                 (case atomic_add (bc_values P) src update of (old_bc, bc_values') \<Rightarrow>
                    (False, P\<lparr>deltas := deltas', bc_values := bc_values'\<rparr>))))))"

definition bc_loop :: "graph \<Rightarrow> bc_enactor \<Rightarrow> bc_enactor" where
  "bc_loop g E =
     (if forward E then
        (case advance_execute g forward_op True (frontier E) (problem E) of (f, P) \<Rightarrow>
           E\<lparr>problem := P, frontier := f, depth := depth E + 1\<rparr>)
      else
        (case advance_execute g (backward_op (single_source (problem E)) (depth E)) False
                (frontier E) (problem E) of (f, P) \<Rightarrow>
           E\<lparr>problem := P, frontier := f, depth := depth E - 1\<rparr>))"

definition bc_is_converged :: "graph \<Rightarrow> bc_enactor \<Rightarrow> bool \<times> bc_enactor" where
  "bc_is_converged g E =
     (let n_vertices = get_number_of_vertices g in
      if forward E then
        (let forward_converged = is_empty (frontier E) in
         if forward_converged then
           (False, E\<lparr>frontier := sequence 0 n_vertices, forward := False,
                     depth := int (iteration E) - 1\<rparr>)
         else (False, E))
      else
        (if depth E = 0 then
           (let scale = (\<lambda>val. 0.5 * val) in
            (True, E\<lparr>problem := (problem E)\<lparr>bc_values :=
                        transform_prefix n_vertices scale (bc_values (problem E))\<rparr>\<rparr>))
         else (False, E)))"

definition bc_enact :: "graph \<Rightarrow> bc_problem \<Rightarrow> bc_enactor option" where
  "bc_enact g P =
     enact_rounds (\<lambda>E. Some (bc_loop g E)) (bc_is_converged g)
       (bc_prepare_frontier (bc_enactor_t P))"

definition bc_run :: "graph \<Rightarrow> nat \<Rightarrow> real list \<Rightarrow> real list \<Rightarrow> bc_enactor option" where
  "bc_run g param_single_source result_sigmas result_bc_values =
     bc_enact g (bc_reset g (bc_init g
       (bc_problem_t param_single_source result_sigmas result_bc_values)))"

text \<open>
  The state of a betweenness-centrality run after at most \<open>m\<close> rounds, each round being
  what \<open>enact_rounds\<close> performs: \<open>loop\<close>, the increment of the iteration counter, then
  \<open>is_converged\<close>. A run that has converged stays where it stopped.
\<close>

fun bc_after :: "graph \<Rightarrow> nat \<Rightarrow> bc_enactor \<Rightarrow> bc_enactor" where
  "bc_after g 0 E = E"
| "bc_after g (Suc m) E =
     (case bc_is_converged g ((bc_loop g E)\<lparr>iteration := iteration (bc_loop g E) + 1\<rparr>) of
        (converged, E') \<Rightarrow> if converged then E' else bc_after g m E')"

text \<open>
  The arrays of a problem hold one cell per vertex: \<open>init\<close> sizes the internal arrays
  so, and the caller's result buffers are addressed by vertex identifier.
\<close>

definition kcore_sized :: "graph \<Rightarrow> kcore_problem \<Rightarrow> bool" where
  "kcore_sized g P \<longleftrightarrow>
     length (k_cores P) = length g \<and> length (degrees P) = length g \<and>
     length (deleted P) = length g \<and> length (to_be_deleted P) = length g"

definition bc_sized :: "graph \<Rightarrow> bc_problem \<Rightarrow> bool" where
  "bc_sized g P \<longleftrightarrow>
     length (sigmas P) = length g \<and> length (bc_values P) = length g \<and>
     length (labels P) = length g \<and> length (deltas P) = length g"

text \<open>
  A graph with valid identifiers: every neighbour of every vertex is a vertex.
\<close>

definition valid_graph :: "graph \<Rightarrow> bool" where
  "valid_graph g \<longleftrightarrow> list_all (\<lambda>nb. list_all (\<lambda>u. u < length g) nb) g"

text \<open>
  What a betweenness-centrality run keeps true of its source \<open>s\<close>: the arrays hold one
  cell per vertex, and the source has path count 1, centrality 0 and label 0. In the forward
  phase, moreover, every vertex of the frontier is labelled.
\<close>

definition bc_source_inv :: "graph \<Rightarrow> nat \<Rightarrow> bc_problem \<Rightarrow> bool" where
  "bc_source_inv g s P \<longleftrightarrow>
     bc_sized g P \<and> single_source P = s \<and> s < length g \<and>
     sigmas P ! s = 1 \<and> bc_values P ! s = 0 \<and> labels P ! s = 0"


definition bc_run_inv :: "graph \<Rightarrow> nat \<Rightarrow> bc_enactor \<Rightarrow> bool" where
  "bc_run_inv g s E \<longleftrightarrow>
     bc_source_inv g s (problem E) \<and>
     (forward E \<longrightarrow> (\<forall>v \<in> set (frontier E). v < length g \<and> 0 \<le> labels (problem E) ! v))"

text \<open>
  The predicate that \<open>bc_loop\<close> hands to Advance in the state \<open>E\<close>.
\<close>

definition bc_round_op :: "bc_enactor \<Rightarrow> nat \<Rightarrow> nat \<Rightarrow> bc_problem \<Rightarrow> bool \<times> bc_problem" where
  "bc_round_op E =
     (if forward E then forward_op else backward_op (single_source (problem E)) (depth E))"

text \<open>
  An undirected graph: the identifiers are valid and the adjacency is symmetric, \<open>v\<close>
  occurring among the neighbours of \<open>u\<close> as often as \<open>u\<close> among those of \<open>v\<close>.
  Parallel edges and edges from a vertex to itself are allowed.
\<close>

definition undirected :: "graph \<Rightarrow> bool" where
  "undirected g \<longleftrightarrow>
     valid_graph g \<and>
     list_all (\<lambda>u. list_all (\<lambda>v. count_list (g ! u) v = count_list (g ! v) u) [0..<length g])
       [0..<length g]"

text \<open>
  The reference for the k-core result, following the spec's words "repeated min-degree
  peeling": among the vertices not yet removed, repeatedly take one of minimum remaining
  degree (its number of neighbours not yet removed), raise the threshold \<open>k\<close> to that
  degree if it is larger, give the vertex the core number \<open>k\<close> and remove it.
\<close>

definition remaining_degree :: "graph \<Rightarrow> nat list \<Rightarrow> nat \<Rightarrow> nat" where
  "remaining_degree g R v = length (filter (\<lambda>u. u \<in> set R) (g ! v))"

function reference_peel :: "graph \<Rightarrow> nat list \<Rightarrow> nat \<Rightarrow> int list \<Rightarrow> int list" where
  "reference_peel g R k core =
     (if R = [] then core
      else
        (let v = arg_min_list (remaining_degree g R) R;
             k' = max k (remaining_degree g R v)
         in reference_peel g (removeAll v R) k' (core[v := int k'])))"
  by pat_completeness auto
termination
proof (relation "measure (\<lambda>(g, R, k, core). length R)")
  show "wf (measure (\<lambda>(g, R, k, core). length R))" by simp
next
  fix g :: graph and R :: "nat list" and k :: nat and core :: "int list" and v k'
  assume "R \<noteq> []" and v: "v = arg_min_list (remaining_degree g R) R"
  then have "v \<in> set R" using arg_min_list_in by blast
  then have "length (removeAll v R) < length R"
    by (simp add: length_removeAll_less)
  then show "((g, removeAll v R, k', core[v := int k']), (g, R, k, core))
               \<in> measure (\<lambda>(g, R, k, core). length R)"
    by simp
qed

declare reference_peel.simps [simp del]

definition reference_k_cores :: "graph \<Rightarrow> int list" where
  "reference_k_cores g = reference_peel g [0..<length g] 0 (replicate (length g) 0)"

text \<open>
  Core numbers, independently of any algorithm. A set of vertices is a \<open>k\<close>-core set when
  each of its members has at least \<open>k\<close> neighbours (counted with multiplicity) in the set;
  the \<open>k\<close>-core is the union of all of them; a vertex has core number \<open>c\<close> when it is in
  the \<open>c\<close>-core and not in the \<open>(c + 1)\<close>-core.
\<close>

definition core_set :: "graph \<Rightarrow> nat \<Rightarrow> nat set \<Rightarrow> bool" where
  "core_set g k S \<longleftrightarrow>
     S \<subseteq> {..<length g} \<and> (\<forall>v \<in> S. k \<le> length (filter (\<lambda>u. u \<in> S) (g ! v)))"

definition k_core :: "graph \<Rightarrow> nat \<Rightarrow> nat set" where
  "k_core g k = \<Union>{S. core_set g k S}"

definition core_number_is :: "graph \<Rightarrow> nat \<Rightarrow> nat \<Rightarrow> bool" where
  "core_number_is g v c \<longleftrightarrow> v \<in> k_core g c \<and> v \<notin> k_core g (Suc c)"

text \<open>
  The vertices \<open>advance_op\<close> marks for threshold \<open>k\<close>, the vertices still in the graph,
  and what the inner loop of \<open>kcore_loop\<close> keeps true at its head for threshold \<open>k\<close>:
  the remaining vertices lie between the \<open>(k + 1)\<close>-core and the \<open>k\<close>-core, each
  remaining vertex's counter is its number of remaining neighbours, every vertex marked
  to-be-deleted is deleted, every deleted vertex has its core number in \<open>k_cores\<close>, and
  the frontier, without repetition, holds every remaining vertex whose counter is at most
  \<open>k\<close>. \<open>kcore_round\<close> is one pass of the inner loop's body.
\<close>

definition peelable :: "nat \<Rightarrow> kcore_problem \<Rightarrow> nat \<Rightarrow> bool" where
  "peelable k P v \<longleftrightarrow> \<not> deleted P ! v \<and> \<not> unsigned_greater (degrees P ! v) k"

definition remaining :: "kcore_problem \<Rightarrow> nat set" where
  "remaining P = {v. v < length (deleted P) \<and> \<not> deleted P ! v}"

definition kcore_inv :: "graph \<Rightarrow> nat \<Rightarrow> kcore_problem \<Rightarrow> bool" where
  "kcore_inv g k P \<longleftrightarrow>
     kcore_sized g P \<and>
     k_core g (Suc k) \<subseteq> remaining P \<and> remaining P \<subseteq> k_core g k \<and>
     (\<forall>v \<in> remaining P.
        degrees P ! v = int (length (filter (\<lambda>u. u \<in> remaining P) (g ! v)))) \<and>
     (\<forall>v < length g. to_be_deleted P ! v \<longrightarrow> deleted P ! v) \<and>
     (\<forall>v < length g. deleted P ! v \<longrightarrow> (\<exists>c. k_cores P ! v = int c \<and> core_number_is g v c))"

definition frontier_inv :: "nat \<Rightarrow> kcore_problem \<Rightarrow> frontier \<Rightarrow> bool" where
  "frontier_inv k P f \<longleftrightarrow>
     distinct f \<and> set f \<subseteq> {..<length (deleted P)} \<and>
     {v \<in> remaining P. degrees P ! v \<le> int k} \<subseteq> set f"

definition kcore_round :: "graph \<Rightarrow> nat \<Rightarrow> frontier \<Rightarrow> kcore_problem \<Rightarrow> frontier \<times> kcore_problem" where
  "kcore_round g k f P =
     (case advance_execute g (advance_op k) True f P of (f1, P1) \<Rightarrow>
        filter_execute (filter_op k) f1 (mark_deleted g P1))"

section \<open>Properties of the k-core predicates\<close>

lemma filter_op_eq:
  "filter_op k v P =
     (if deleted P ! v then (False, P)
      else (degrees P ! v = int k + 1, P\<lparr>degrees := (degrees P)[v := degrees P ! v - 1]\<rparr>))"
  by (simp add: filter_op_def atomic_add_def)

text \<open>
  C2, as amended. For a frontier element whose deleted flag is false, \<open>filter_op\<close> decrements
  the remaining-degree counter by exactly one, and it re-admits the vertex exactly when the
  counter held \<open>k + 1\<close> before the decrement, that is, when the decrement has just brought
  the counter to \<open>k\<close> (not to \<open>k + 1\<close>).
\<close>

theorem filter_op_readmits_at_old_value:
  assumes "vertex < length (degrees P)" and "\<not> deleted P ! vertex"
  shows "degrees (snd (filter_op k vertex P)) ! vertex = degrees P ! vertex - 1 \<and>
         (fst (filter_op k vertex P) \<longleftrightarrow> degrees P ! vertex = int k + 1) \<and>
         (fst (filter_op k vertex P) \<longleftrightarrow> degrees (snd (filter_op k vertex P)) ! vertex = int k)"
  using assms by (auto simp add: filter_op_eq)

theorem filter_op_readmits_at_old_value_witness:
  "(0::nat) < length (degrees \<lparr>k_cores = [0], degrees = [2], deleted = [False], to_be_deleted = [False]\<rparr>) \<and>
   \<not> deleted \<lparr>k_cores = [0], degrees = [2], deleted = [False], to_be_deleted = [False]\<rparr> ! 0 \<and>
   degrees (snd (filter_op 1 0
      \<lparr>k_cores = [0], degrees = [2], deleted = [False], to_be_deleted = [False]\<rparr>)) ! 0 = 1 \<and>
   fst (filter_op 1 0 \<lparr>k_cores = [0], degrees = [2], deleted = [False], to_be_deleted = [False]\<rparr>)"
  using filter_op_readmits_at_old_value
    [of 0 "\<lparr>k_cores = [0], degrees = [2], deleted = [False], to_be_deleted = [False]\<rparr>" 1]
  by simp

text \<open>
  C2 as stated fails: with \<open>k = 1\<close> and a counter holding 2, the vertex is re-admitted
  although the decrement leaves the counter at 1, not at \<open>k + 1 = 2\<close>.
\<close>

theorem filter_op_readmits_counterexample:
  "fst (filter_op 1 0 \<lparr>k_cores = [0], degrees = [2], deleted = [False], to_be_deleted = [False]\<rparr>) \<and>
   degrees (snd (filter_op 1 0
      \<lparr>k_cores = [0], degrees = [2], deleted = [False], to_be_deleted = [False]\<rparr>)) ! 0 \<noteq> int 1 + 1"
  by (simp add: filter_op_eq)

text \<open>
  C7, as amended. When \<open>is_converged\<close> of k-core returns true, every vertex's deleted flag
  is true, and \<open>is_converged\<close> has reseeded the frontier with the full vertex range
  \<open>[0, n)\<close>: the frontier is then empty only for a graph without vertices.
\<close>

theorem kcore_is_converged_true:
  assumes "kcore_is_converged g E = (True, E')"
  shows "(\<forall>v < length (deleted (problem E')). deleted (problem E') ! v) \<and>
         frontier E' = sequence 0 (get_number_of_vertices g) \<and>
         (is_empty (frontier E') \<longleftrightarrow> get_number_of_vertices g = 0)"
  using assms
  by (auto simp: kcore_is_converged_def Let_def list_all_length is_empty_def sequence_def)

theorem kcore_is_converged_true_witness:
  "kcore_is_converged [[1], [0]]
     \<lparr>problem = \<lparr>k_cores = [1, 1], degrees = [1, 1], deleted = [True, True],
                 to_be_deleted = [True, True]\<rparr>, frontier = [], iteration = 1\<rparr>
   = (True, \<lparr>problem = \<lparr>k_cores = [1, 1], degrees = [1, 1], deleted = [True, True],
                 to_be_deleted = [True, True]\<rparr>, frontier = [0, 1], iteration = 1\<rparr>) \<and>
   frontier \<lparr>problem = \<lparr>k_cores = [1, 1], degrees = [1, 1], deleted = [True, True],
                 to_be_deleted = [True, True]\<rparr>, frontier = [0, 1], iteration = 1\<rparr>
   = sequence 0 (get_number_of_vertices [[1], [0]])"
proof -
  have c: "kcore_is_converged [[1], [0]]
     \<lparr>problem = \<lparr>k_cores = [1, 1], degrees = [1, 1], deleted = [True, True],
                 to_be_deleted = [True, True]\<rparr>, frontier = [], iteration = 1\<rparr>
   = (True, \<lparr>problem = \<lparr>k_cores = [1, 1], degrees = [1, 1], deleted = [True, True],
                 to_be_deleted = [True, True]\<rparr>, frontier = [0, 1], iteration = 1\<rparr>)"
    by (simp add: kcore_is_converged_def get_number_of_vertices_def sequence_def upt_rec)
  from kcore_is_converged_true [OF c] c show ?thesis by simp
qed

text \<open>
  C7 as stated fails: the run on the graph of one edge converges with both vertices deleted
  and with the frontier holding both vertices, so \<open>is_empty\<close> is false at convergence.
\<close>

theorem kcore_frontier_at_convergence_counterexample:
  "kcore_run [[1], [0]] [0, 0] =
     Some \<lparr>problem = \<lparr>k_cores = [1, 1], degrees = [1, 1], deleted = [True, True],
                      to_be_deleted = [True, True]\<rparr>, frontier = [0, 1], iteration = 1\<rparr> \<and>
   \<not> is_empty (frontier
     \<lparr>problem = \<lparr>k_cores = [1, 1], degrees = [1, 1], deleted = [True, True],
                 to_be_deleted = [True, True]\<rparr>, frontier = [0, 1], iteration = 1\<rparr>)"
  by code_simp

section \<open>Properties of the betweenness-centrality predicates and phases\<close>

lemma forward_op_eq:
  "forward_op src dst P =
     (let new_label = labels P ! src + 1; old_label = labels P ! dst;
          P1 = P\<lparr>labels := (if old_label = - 1 then (labels P)[dst := new_label] else labels P)\<rparr>
      in if old_label \<noteq> - 1 \<and> new_label \<noteq> old_label then (False, P1)
         else (old_label = - 1, P1\<lparr>sigmas := (sigmas P)[dst := sigmas P ! dst + sigmas P ! src]\<rparr>))"
  by (simp add: forward_op_def atomic_add_def atomic_cas_def Let_def)

text \<open>
  C3. For an edge \<open>(src, dst)\<close> visited by \<open>forward_op\<close>: the label of \<open>dst\<close> is written
  (with \<open>labels[src] + 1\<close>) only if it held the sentinel -1; \<open>sigma[dst]\<close> is increased by
  \<open>sigma[src]\<close> exactly when the label of \<open>dst\<close> after the compare-and-swap equals
  \<open>labels[src] + 1\<close>, and is unchanged otherwise; and the predicate returns true, so that
  Advance appends \<open>dst\<close> to the output frontier, exactly when the compare-and-swap found -1.
\<close>

theorem forward_op_effect:
  assumes "forward_op src dst P = (keep, P')" and "dst < length (labels P)"
  shows "labels P' = (if labels P ! dst = - 1 then (labels P)[dst := labels P ! src + 1]
                      else labels P) \<and>
         sigmas P' = (if labels P' ! dst = labels P ! src + 1
                      then (sigmas P)[dst := sigmas P ! dst + sigmas P ! src] else sigmas P) \<and>
         keep = (labels P ! dst = - 1) \<and>
         advance_edges forward_op [(src, dst)] P =
           (if labels P ! dst = - 1 then [dst] else [], P') \<and>
         bc_values P' = bc_values P \<and> deltas P' = deltas P \<and>
         single_source P' = single_source P"
  using assms by (auto simp add: forward_op_eq Let_def split: if_splits)

theorem forward_op_effect_witness:
  "forward_op 0 1 \<lparr>single_source = 0, sigmas = [1, 0], bc_values = [0, 0],
                   labels = [0, - 1], deltas = [0, 0]\<rparr>
     = (True, \<lparr>single_source = 0, sigmas = [1, 1], bc_values = [0, 0],
               labels = [0, 1], deltas = [0, 0]\<rparr>) \<and>
   (1::nat) < length (labels \<lparr>single_source = 0, sigmas = [1, 0], bc_values = [0, 0],
                   labels = [0, - 1], deltas = [0, 0]\<rparr>) \<and>
   advance_edges forward_op [(0, 1)] \<lparr>single_source = 0, sigmas = [1, 0], bc_values = [0, 0],
                   labels = [0, - 1], deltas = [0, 0]\<rparr>
     = ([1], \<lparr>single_source = 0, sigmas = [1, 1], bc_values = [0, 0],
               labels = [0, 1], deltas = [0, 0]\<rparr>)"
proof -
  have a: "forward_op 0 1 \<lparr>single_source = 0, sigmas = [1, 0], bc_values = [0, 0],
                   labels = [0, - 1], deltas = [0, 0]\<rparr>
     = (True, \<lparr>single_source = 0, sigmas = [1, 1], bc_values = [0, 0],
               labels = [0, 1], deltas = [0, 0]\<rparr>)"
    by (simp add: forward_op_eq)
  have b: "(1::nat) < length (labels \<lparr>single_source = 0, sigmas = [1, 0], bc_values = [0, 0],
                   labels = [0, - 1], deltas = [0, 0]\<rparr>)"
    by simp
  from forward_op_effect [OF a b] a b show ?thesis by simp
qed

text \<open>
  C4. For an edge \<open>(src, dst)\<close> visited by \<open>backward_op\<close> at depth \<open>d\<close>: when \<open>src\<close> is
  not the single source, \<open>delta[src]\<close> and \<open>bc_values[src]\<close> are each increased by
  \<open>sigma[src] / sigma[dst] * (1 + delta[dst])\<close> exactly when \<open>labels[src] = d\<close> and
  \<open>labels[dst] = d + 1\<close>; in every other case, and always for the source itself, the state
  is unchanged. The predicate returns false.
\<close>

theorem backward_op_effect:
  "backward_op s d src dst P =
     (False,
      if src \<noteq> s \<and> labels P ! src = d \<and> labels P ! dst = d + 1 then
        (let update = sigmas P ! src / sigmas P ! dst * (1 + deltas P ! dst) in
         P\<lparr>deltas := (deltas P)[src := deltas P ! src + update],
           bc_values := (bc_values P)[src := bc_values P ! src + update]\<rparr>)
      else P)"
  by (simp add: backward_op_def atomic_add_def Let_def)

text \<open>
  C5. When the forward-phase frontier is empty, \<open>is_converged\<close> reseeds the frontier with
  the full vertex range \<open>[0, n)\<close>, switches the phase flag to backward, sets the depth
  counter to the iteration counter minus 1, and returns false.
\<close>

theorem bc_is_converged_phase_switch:
  assumes "forward E" and "is_empty (frontier E)"
  shows "bc_is_converged g E =
           (False, E\<lparr>frontier := [0..<get_number_of_vertices g], forward := False,
                     depth := int (iteration E) - 1\<rparr>)"
  using assms by (simp add: bc_is_converged_def sequence_def Let_def)

theorem bc_is_converged_phase_switch_witness:
  "forward \<lparr>problem = bc_problem_t 0 [1, 1] [0, 0], frontier = [], iteration = 2,
            forward = True, depth = 2\<rparr> \<and>
   is_empty (frontier \<lparr>problem = bc_problem_t 0 [1, 1] [0, 0], frontier = [], iteration = 2,
            forward = True, depth = 2\<rparr>) \<and>
   bc_is_converged [[1], [0]]
       \<lparr>problem = bc_problem_t 0 [1, 1] [0, 0], frontier = [], iteration = 2,
        forward = True, depth = 2\<rparr>
     = (False, \<lparr>problem = bc_problem_t 0 [1, 1] [0, 0], frontier = [0, 1], iteration = 2,
                forward = False, depth = 1\<rparr>)"
  using bc_is_converged_phase_switch
    [of "\<lparr>problem = bc_problem_t 0 [1, 1] [0, 0], frontier = [], iteration = 2,
          forward = True, depth = 2\<rparr>" "[[1], [0]]"]
  by (simp add: is_empty_def get_number_of_vertices_def upt_rec)

lemma backward_op_false: "fst (backward_op s d src dst P) = False"
  by (simp add: backward_op_def atomic_add_def Let_def split: prod.splits)

lemma advance_edges_backward_out: "fst (advance_edges (backward_op s d) es P) = []"
proof (induction es arbitrary: P)
  case Nil
  then show ?case by simp
next
  case (Cons e es)
  obtain src dst where e: "e = (src, dst)" by (cases e)
  obtain b P1 where b: "backward_op s d src dst P = (b, P1)"
    by (cases "backward_op s d src dst P")
  have "b = False" using backward_op_false [of s d src dst P] b by simp
  moreover obtain out P2 where o: "advance_edges (backward_op s d) es P1 = (out, P2)"
    by (cases "advance_edges (backward_op s d) es P1")
  moreover have "out = []" using Cons.IH [of P1] o by simp
  ultimately show ?case using e b by simp
qed

lemma bc_loop_backward:
  "\<not> forward E \<Longrightarrow>
     frontier (bc_loop g E) = frontier E \<and> \<not> forward (bc_loop g E) \<and>
     depth (bc_loop g E) = depth E - 1 \<and> iteration (bc_loop g E) = iteration E"
  by (simp add: bc_loop_def advance_execute_def split: prod.splits)

lemma bc_is_converged_backward:
  "\<not> forward E \<Longrightarrow>
     frontier (snd (bc_is_converged g E)) = frontier E \<and>
     \<not> forward (snd (bc_is_converged g E)) \<and>
     depth (snd (bc_is_converged g E)) = depth E \<and>
     fst (bc_is_converged g E) = (depth E = 0)"
  by (simp add: bc_is_converged_def Let_def)

lemma bc_after_backward_frontier:
  "\<not> forward E \<Longrightarrow> frontier (bc_after g m E) = frontier E \<and> \<not> forward (bc_after g m E)"
proof (induction m arbitrary: E)
  case 0
  then show ?case by simp
next
  case (Suc m)
  let ?E1 = "(bc_loop g E)\<lparr>iteration := iteration (bc_loop g E) + 1\<rparr>"
  have 1: "\<not> forward ?E1" "frontier ?E1 = frontier E"
    using bc_loop_backward [OF Suc.prems, of g] by simp_all
  obtain c E2 where c: "bc_is_converged g ?E1 = (c, E2)" by (cases "bc_is_converged g ?E1")
  have 2: "\<not> forward E2" "frontier E2 = frontier E"
    using bc_is_converged_backward [OF 1(1), of g] c 1(2) by simp_all
  show ?case using c 2 Suc.IH [OF 2(1)] by simp
qed

lemma bc_enact_rounds_bc_after:
  assumes "enact_rounds (\<lambda>E. Some (bc_loop g E)) (bc_is_converged g) E = Some E'"
  shows "\<exists>m. bc_after g m E = E'"
proof (rule enact_rounds.raw_induct
    [where P = "\<lambda>l c E E'. l = (\<lambda>E. Some (bc_loop g E)) \<and> c = bc_is_converged g \<longrightarrow>
                  (\<exists>m. bc_after g m E = E')",
      OF _ assms, THEN mp])
  show "(\<lambda>E. Some (bc_loop g E)) = (\<lambda>E. Some (bc_loop g E)) \<and> bc_is_converged g = bc_is_converged g"
    by simp
next
  fix er l c E y
  assume IH: "\<And>c E b y. er c E b = Some y \<Longrightarrow>
            c = (\<lambda>E. Some (bc_loop g E)) \<and> E = bc_is_converged g \<longrightarrow> (\<exists>m. bc_after g m b = y)"
    and eq: "(case l E of None \<Rightarrow> None
         | Some E1 \<Rightarrow> (case c (E1\<lparr>iteration := iteration E1 + 1\<rparr>) of
              (converged, E2) \<Rightarrow> if converged then Some E2 else er l c E2)) = Some y"
  show "l = (\<lambda>E. Some (bc_loop g E)) \<and> c = bc_is_converged g \<longrightarrow> (\<exists>m. bc_after g m E = y)"
  proof
    assume lc: "l = (\<lambda>E. Some (bc_loop g E)) \<and> c = bc_is_converged g"
    let ?E1 = "(bc_loop g E)\<lparr>iteration := iteration (bc_loop g E) + 1\<rparr>"
    obtain cv E2 where c: "bc_is_converged g ?E1 = (cv, E2)" by (cases "bc_is_converged g ?E1")
    show "\<exists>m. bc_after g m E = y"
    proof (cases cv)
      case True
      then have "y = E2" using eq lc c by simp
      then have "bc_after g (Suc 0) E = y" using c True by simp
      then show ?thesis by blast
    next
      case False
      then have "er l c E2 = Some y" using eq lc c by simp
      then obtain m where "bc_after g m E2 = y" using IH lc by blast
      then have "bc_after g (Suc m) E = y" using c False by simp
      then show ?thesis by blast
    qed
  qed
qed

text \<open>
  C10. \<open>backward_op\<close> returns false for every edge and state, so a backward-phase Advance
  appends nothing to its output frontier; and from the phase switch on, the frontier of
  every later state of the run, and of its final state if it converges, is the full vertex
  range that \<open>is_converged\<close> seeded.
\<close>

theorem backward_advance_appends_nothing:
  assumes "forward E" and "is_empty (frontier E)" and "bc_is_converged g E = (c, E0)"
  shows "fst (backward_op s d src dst P) = False \<and>
         fst (advance_edges (backward_op s d) es P) = [] \<and>
         (\<forall>m. frontier (bc_after g m E0) = sequence 0 (get_number_of_vertices g) \<and>
              \<not> forward (bc_after g m E0)) \<and>
         (\<forall>E'. enact_rounds (\<lambda>E. Some (bc_loop g E)) (bc_is_converged g) E0 = Some E' \<longrightarrow>
               frontier E' = sequence 0 (get_number_of_vertices g))"
proof -
  have "\<not> forward E0" "frontier E0 = sequence 0 (get_number_of_vertices g)"
    using assms by (auto simp add: bc_is_converged_def Let_def)
  then have a: "frontier (bc_after g m E0) = sequence 0 (get_number_of_vertices g) \<and>
                \<not> forward (bc_after g m E0)" for m
    using bc_after_backward_frontier [of E0 g m] by simp
  have "frontier E' = sequence 0 (get_number_of_vertices g)"
    if "enact_rounds (\<lambda>E. Some (bc_loop g E)) (bc_is_converged g) E0 = Some E'" for E'
    using bc_enact_rounds_bc_after [OF that] a by auto
  then show ?thesis
    using a backward_op_false advance_edges_backward_out by simp
qed

theorem backward_advance_appends_nothing_witness:
  "forward \<lparr>problem = \<lparr>single_source = 0, sigmas = [1, 1], bc_values = [0, 0],
                        labels = [0, 1], deltas = [0, 0]\<rparr>,
            frontier = [], iteration = 2, forward = True, depth = 2\<rparr> \<and>
   is_empty (frontier \<lparr>problem = \<lparr>single_source = 0, sigmas = [1, 1], bc_values = [0, 0],
                        labels = [0, 1], deltas = [0, 0]\<rparr>,
            frontier = [], iteration = 2, forward = True, depth = 2\<rparr>) \<and>
   bc_is_converged [[1], [0]] \<lparr>problem = \<lparr>single_source = 0, sigmas = [1, 1], bc_values = [0, 0],
                        labels = [0, 1], deltas = [0, 0]\<rparr>,
            frontier = [], iteration = 2, forward = True, depth = 2\<rparr>
     = (False, \<lparr>problem = \<lparr>single_source = 0, sigmas = [1, 1], bc_values = [0, 0],
                        labels = [0, 1], deltas = [0, 0]\<rparr>,
            frontier = [0, 1], iteration = 2, forward = False, depth = 1\<rparr>) \<and>
   frontier (bc_after [[1], [0]] 1 \<lparr>problem = \<lparr>single_source = 0, sigmas = [1, 1], bc_values = [0, 0],
                        labels = [0, 1], deltas = [0, 0]\<rparr>,
            frontier = [0, 1], iteration = 2, forward = False, depth = 1\<rparr>) = [0, 1]"
proof -
  let ?E = "\<lparr>problem = \<lparr>single_source = 0, sigmas = [1, 1], bc_values = [0, 0],
                        labels = [0, 1], deltas = [0, 0]\<rparr>,
            frontier = [], iteration = 2, forward = True, depth = 2\<rparr>"
  have a: "forward ?E" by simp
  have b: "is_empty (frontier ?E)" by (simp add: is_empty_def)
  have c: "bc_is_converged [[1], [0]] ?E
     = (False, \<lparr>problem = \<lparr>single_source = 0, sigmas = [1, 1], bc_values = [0, 0],
                        labels = [0, 1], deltas = [0, 0]\<rparr>,
            frontier = [0, 1], iteration = 2, forward = False, depth = 1\<rparr>)"
    by (simp add: bc_is_converged_def is_empty_def sequence_def get_number_of_vertices_def upt_rec)
  from backward_advance_appends_nothing [OF a b c]
  have "frontier (bc_after [[1], [0]] 1 \<lparr>problem = \<lparr>single_source = 0, sigmas = [1, 1],
          bc_values = [0, 0], labels = [0, 1], deltas = [0, 0]\<rparr>,
          frontier = [0, 1], iteration = 2, forward = False, depth = 1\<rparr>)
        = sequence 0 (get_number_of_vertices [[1], [0]])"
    by blast
  with a b c show ?thesis
    by (simp add: sequence_def get_number_of_vertices_def upt_rec)
qed

text \<open>
  C6. In the backward phase, \<open>loop\<close> decreases the depth counter by exactly one and
  \<open>is_converged\<close> leaves it unchanged; \<open>is_converged\<close> returns true exactly when the
  depth is 0, and then every entry of \<open>bc_values\<close> has been multiplied by 0.5, the other
  case leaving \<open>bc_values\<close> unchanged. The run stops with that state in the round whose
  \<open>loop\<close> brings the depth to 0, and goes on otherwise.
\<close>

theorem backward_round_depth:
  assumes "\<not> forward E" and "length (bc_values (problem E)) = get_number_of_vertices g"
  shows "depth (bc_loop g E) = depth E - 1 \<and> \<not> forward (bc_loop g E) \<and>
         depth (snd (bc_is_converged g E)) = depth E \<and>
         (fst (bc_is_converged g E) \<longleftrightarrow> depth E = 0) \<and>
         bc_values (problem (snd (bc_is_converged g E))) =
           (if depth E = 0 then map (\<lambda>val. 0.5 * val) (bc_values (problem E))
            else bc_values (problem E)) \<and>
         enact_rounds (\<lambda>E. Some (bc_loop g E)) (bc_is_converged g) E =
           (let E1 = (bc_loop g E)\<lparr>iteration := iteration (bc_loop g E) + 1\<rparr> in
            if depth E = 1 then Some (snd (bc_is_converged g E1))
            else enact_rounds (\<lambda>E. Some (bc_loop g E)) (bc_is_converged g) E1)"
proof -
  let ?E1 = "(bc_loop g E)\<lparr>iteration := iteration (bc_loop g E) + 1\<rparr>"
  have l: "depth (bc_loop g E) = depth E - 1" "\<not> forward (bc_loop g E)"
    using bc_loop_backward [OF assms(1), of g] by simp_all
  have c: "depth (snd (bc_is_converged g E)) = depth E" "fst (bc_is_converged g E) \<longleftrightarrow> depth E = 0"
    using bc_is_converged_backward [OF assms(1), of g] by simp_all
  have v: "bc_values (problem (snd (bc_is_converged g E))) =
           (if depth E = 0 then map (\<lambda>val. 0.5 * val) (bc_values (problem E))
            else bc_values (problem E))"
    using assms by (simp add: bc_is_converged_def Let_def transform_prefix_def)
  have 1: "\<not> forward ?E1" "depth ?E1 = depth E - 1" using l by simp_all
  have e: "enact_rounds (\<lambda>E. Some (bc_loop g E)) (bc_is_converged g) E =
           (if depth E = 1 then Some (snd (bc_is_converged g ?E1))
            else enact_rounds (\<lambda>E. Some (bc_loop g E)) (bc_is_converged g) ?E1)"
  proof (cases "depth E = 1")
    case True
    then have "bc_is_converged g ?E1 = (True, snd (bc_is_converged g ?E1))"
      using 1 by (simp add: bc_is_converged_def Let_def)
    then obtain E2 where "bc_is_converged g ?E1 = (True, E2)" "snd (bc_is_converged g ?E1) = E2"
      by (metis snd_conv)
    then show ?thesis using True by (subst enact_rounds.simps) simp
  next
    case False
    then have "bc_is_converged g ?E1 = (False, ?E1)"
      using 1 by (simp add: bc_is_converged_def Let_def)
    then show ?thesis using False by (subst enact_rounds.simps) simp
  qed
  show ?thesis using l c v e by (simp add: Let_def)
qed

theorem backward_round_depth_witness:
  "\<not> forward \<lparr>problem = \<lparr>single_source = 0, sigmas = [1, 1], bc_values = [0, 4],
                           labels = [0, 1], deltas = [0, 0]\<rparr>,
               frontier = [0, 1], iteration = 3, forward = False, depth = 0\<rparr> \<and>
   length (bc_values (problem \<lparr>problem = \<lparr>single_source = 0, sigmas = [1, 1],
                           bc_values = [0, 4], labels = [0, 1], deltas = [0, 0]\<rparr>,
               frontier = [0, 1], iteration = 3, forward = False, depth = 0\<rparr>))
     = get_number_of_vertices [[1], [0]] \<and>
   fst (bc_is_converged [[1], [0]] \<lparr>problem = \<lparr>single_source = 0, sigmas = [1, 1],
                           bc_values = [0, 4], labels = [0, 1], deltas = [0, 0]\<rparr>,
               frontier = [0, 1], iteration = 3, forward = False, depth = 0\<rparr>) \<and>
   bc_values (problem (snd (bc_is_converged [[1], [0]] \<lparr>problem = \<lparr>single_source = 0,
                           sigmas = [1, 1], bc_values = [0, 4], labels = [0, 1],
                           deltas = [0, 0]\<rparr>,
               frontier = [0, 1], iteration = 3, forward = False, depth = 0\<rparr>))) = [0, 2]"
proof -
  let ?E = "\<lparr>problem = \<lparr>single_source = 0, sigmas = [1, 1], bc_values = [0, 4],
                           labels = [0, 1], deltas = [0, 0]\<rparr>,
               frontier = [0, 1], iteration = 3, forward = False, depth = 0\<rparr>"
  have a: "\<not> forward ?E" by simp
  have b: "length (bc_values (problem ?E)) = get_number_of_vertices [[1], [0]]"
    by (simp add: get_number_of_vertices_def)
  from backward_round_depth [OF a b]
  have "fst (bc_is_converged [[1], [0]] ?E) = (depth ?E = 0)"
    and "bc_values (problem (snd (bc_is_converged [[1], [0]] ?E))) =
           (if depth ?E = 0 then map (\<lambda>val. 0.5 * val) (bc_values (problem ?E))
            else bc_values (problem ?E))"
    by blast+
  with a b show ?thesis by simp
qed

section \<open>Array sizes are preserved, and reset re-initialises\<close>

lemma advance_edges_Cons_snd:
  "snd (advance_edges f ((src, dst) # es) st) = snd (advance_edges f es (snd (f src dst st)))"
  by (simp split: prod.splits)

lemma advance_edges_Cons_fst:
  "fst (advance_edges f ((src, dst) # es) st) =
     (if fst (f src dst st) then dst # fst (advance_edges f es (snd (f src dst st)))
      else fst (advance_edges f es (snd (f src dst st))))"
  by (simp split: prod.splits)

lemma filter_execute_Cons_snd:
  "snd (filter_execute f (v # vs) st) = snd (filter_execute f vs (snd (f v st)))"
  by (simp split: prod.splits)

lemma filter_execute_Cons_fst:
  "fst (filter_execute f (v # vs) st) =
     (if fst (f v st) then v # fst (filter_execute f vs (snd (f v st)))
      else fst (filter_execute f vs (snd (f v st))))"
  by (simp split: prod.splits)

lemma advance_edges_invariant:
  assumes "\<And>src dst st. I st \<Longrightarrow> I (snd (f src dst st))" and "I st"
  shows "I (snd (advance_edges f es st))"
  using assms(2)
proof (induction es arbitrary: st)
  case Nil
  then show ?case by simp
next
  case (Cons e es)
  obtain src dst where e: "e = (src, dst)" by (cases e)
  have "I (snd (f src dst st))" using assms(1) Cons.prems by simp
  then have "I (snd (advance_edges f es (snd (f src dst st))))" by (rule Cons.IH)
  then show ?case using e by (simp only: advance_edges_Cons_snd)
qed

lemma filter_execute_invariant:
  assumes "\<And>v st. I st \<Longrightarrow> I (snd (f v st))" and "I st"
  shows "I (snd (filter_execute f vs st))"
  using assms(2)
proof (induction vs arbitrary: st)
  case Nil
  then show ?case by simp
next
  case (Cons v vs)
  have "I (snd (f v st))" using assms(1) Cons.prems by simp
  then have "I (snd (filter_execute f vs (snd (f v st))))" by (rule Cons.IH)
  then show ?case by (simp only: filter_execute_Cons_snd)
qed

lemma enact_rounds_invariant:
  assumes run: "enact_rounds loop is_converged E = Some E'"
    and init: "I E"
    and loop: "\<And>E E1. I E \<Longrightarrow> loop E = Some E1 \<Longrightarrow> I E1"
    and incr: "\<And>E. I E \<Longrightarrow> I (E\<lparr>iteration := iteration E + 1\<rparr>)"
    and conv: "\<And>E. I E \<Longrightarrow> I (snd (is_converged E))"
  shows "I E'"
proof -
  have "I E \<longrightarrow> I E'"
  proof (rule enact_rounds.raw_induct [where P = "\<lambda>l c E E'. l = loop \<and> c = is_converged \<longrightarrow> I E \<longrightarrow> I E'", 
        OF _ run, THEN mp])
    show "loop = loop \<and> is_converged = is_converged" by simp
  next
    fix er l c E y
    assume IH: "\<And>c E b y. er c E b = Some y \<Longrightarrow> c = loop \<and> E = is_converged \<longrightarrow> I b \<longrightarrow> I y"
      and eq: "(case l E of None \<Rightarrow> None
         | Some E1 \<Rightarrow> (case c (E1\<lparr>iteration := iteration E1 + 1\<rparr>) of
              (converged, E2) \<Rightarrow> if converged then Some E2 else er l c E2)) = Some y"
    show "l = loop \<and> c = is_converged \<longrightarrow> I E \<longrightarrow> I y"
    proof (intro impI)
      assume lc: "l = loop \<and> c = is_converged" and i: "I E"
      from eq obtain E1 where l: "l E = Some E1" by (cases "l E") auto
      obtain cv E2 where c: "c (E1\<lparr>iteration := iteration E1 + 1\<rparr>) = (cv, E2)"
        by (cases "c (E1\<lparr>iteration := iteration E1 + 1\<rparr>)")
      have "I E1" using loop i l lc by simp
      then have "I (E1\<lparr>iteration := iteration E1 + 1\<rparr>)" by (rule incr)
      then have i2: "I E2" using conv [of "E1\<lparr>iteration := iteration E1 + 1\<rparr>"] c lc by simp
      show "I y"
      proof (cases cv)
        case True
        then show ?thesis using eq l c i2 by simp
      next
        case False
        then have "er l c E2 = Some y" using eq l c by simp
        then show ?thesis using IH lc i2 by blast
      qed
    qed
  qed
  then show ?thesis using init by simp
qed

lemma advance_op_sized: "kcore_sized g P \<Longrightarrow> kcore_sized g (snd (advance_op k src dst P))"
  by (simp add: advance_op_def kcore_sized_def Let_def)

lemma filter_op_sized: "kcore_sized g P \<Longrightarrow> kcore_sized g (snd (filter_op k v P))"
  by (simp add: filter_op_eq kcore_sized_def)

lemma mark_deleted_sized: "kcore_sized g P \<Longrightarrow> kcore_sized g (mark_deleted g P)"
  by (simp add: mark_deleted_def kcore_sized_def transform_index_def get_number_of_vertices_def)

lemma kcore_while_sized:
  assumes "kcore_while g k f P = Some y" and "kcore_sized g P"
  shows "kcore_sized g (snd y)"
proof -
  have "kcore_sized (fst (fst (fst (((g, k), f), P)))) (snd (((g, k), f), P)) \<longrightarrow>
        kcore_sized (fst (fst (fst (((g, k), f), P)))) (snd y)"
  proof (rule kcore_while.raw_induct
      [where Pa = "\<lambda>a y. kcore_sized (fst (fst (fst a))) (snd a) \<longrightarrow> kcore_sized (fst (fst (fst a))) (snd y)",
        OF _ assms(1)])
    fix kw :: "graph \<Rightarrow> nat \<Rightarrow> frontier \<Rightarrow> kcore_problem \<Rightarrow> (frontier \<times> kcore_problem) option"
    fix g k f P y
    assume IH: "\<And>k f P b y. kw k f P b = Some y \<Longrightarrow>
              kcore_sized (fst (fst (fst (((k, f), P), b)))) (snd (((k, f), P), b)) \<longrightarrow>
              kcore_sized (fst (fst (fst (((k, f), P), b)))) (snd y)"
      and eq: "(if is_empty f then Some (f, P)
        else case advance_execute g (advance_op k) True f P of
           (f1, P1) \<Rightarrow>
             case filter_execute (filter_op k) f1 (mark_deleted g P1) of
             (f2, P2) \<Rightarrow> kw g k f2 P2) = Some y"
    show "kcore_sized (fst (fst (fst (((g, k), f), P)))) (snd (((g, k), f), P)) \<longrightarrow>
          kcore_sized (fst (fst (fst (((g, k), f), P)))) (snd y)"
    proof (intro impI)
      assume "kcore_sized (fst (fst (fst (((g, k), f), P)))) (snd (((g, k), f), P))"
      then have s: "kcore_sized g P" by simp
      show "kcore_sized (fst (fst (fst (((g, k), f), P)))) (snd y)"
      proof (cases "is_empty f")
        case True
        then show ?thesis using eq s by auto
      next
        case False
        obtain f1 P1 where a: "advance_execute g (advance_op k) True f P = (f1, P1)"
          by (cases "advance_execute g (advance_op k) True f P")
        obtain f2 P2 where b: "filter_execute (filter_op k) f1 (mark_deleted g P1) = (f2, P2)"
          by (cases "filter_execute (filter_op k) f1 (mark_deleted g P1)")
        have "P1 = snd (advance_edges (advance_op k) (frontier_edges g f) P)"
          using a by (simp add: advance_execute_def split: prod.splits)
        then have "kcore_sized g P1"
          using advance_edges_invariant [of "kcore_sized g" "advance_op k", OF advance_op_sized s]
          by simp
        then have "kcore_sized g (mark_deleted g P1)" by (rule mark_deleted_sized)
        then have "kcore_sized g (snd (filter_execute (filter_op k) f1 (mark_deleted g P1)))"
          using filter_execute_invariant [of "kcore_sized g" "filter_op k", OF filter_op_sized]
          by simp
        then have "kcore_sized g P2" using b by simp
        moreover have "kw g k f2 P2 = Some y" using eq False a b by simp
        ultimately show ?thesis using IH by fastforce
      qed
    qed
  qed
  then show ?thesis using assms(2) by simp
qed


lemma kcore_reset_sized:
  assumes "kcore_sized g P"
  shows "kcore_reset g P =
           \<lparr>k_cores = replicate (length g) 0,
            degrees = map (\<lambda>nb. int (length nb)) g,
            deleted = map (\<lambda>nb. length nb = 0) g,
            to_be_deleted = replicate (length g) False\<rparr>"
proof -
  have d: "map (\<lambda>i. int (length (g ! i))) [0..<length g] = map (\<lambda>nb. int (length nb)) g"
    by (rule nth_equalityI) simp_all
  have z: "map (\<lambda>i. map (\<lambda>nb. int (length nb)) g ! i = 0) [0..<length g]
             = map (\<lambda>nb. length nb = 0) g"
    by (rule nth_equalityI) simp_all
  show ?thesis
    using assms
    by (simp add: kcore_reset_def kcore_sized_def fill_def transform_index_def Let_def
        get_number_of_vertices_def get_number_of_neighbors_def d z)
qed

lemma kcore_init_sized:
  "length rk = length g \<Longrightarrow> kcore_sized g (kcore_init g (kcore_problem_t rk))"
  by (simp add: kcore_init_def kcore_problem_t_def kcore_sized_def resize_def Let_def
      get_number_of_vertices_def)

lemma kcore_loop_sized:
  assumes "kcore_loop g E = Some E1" and "kcore_sized g (problem E)"
  shows "kcore_sized g (problem E1)"
proof -
  from assms(1) obtain y where w: "kcore_while g (iteration E + 1) (frontier E) (problem E) = Some y"
    and e: "E1 = E\<lparr>problem := snd y, frontier := fst y\<rparr>"
    by (auto simp: kcore_loop_def Let_def split: option.splits)
  from kcore_while_sized [OF w assms(2)] e show ?thesis by simp
qed

lemma kcore_enact_sized:
  assumes "kcore_enact g P = Some E" and "kcore_sized g P"
  shows "kcore_sized g (problem E)"
proof (rule enact_rounds_invariant [where I = "\<lambda>E. kcore_sized g (problem E)",
      OF assms(1) [unfolded kcore_enact_def]])
  show "kcore_sized g (problem (kcore_prepare_frontier g \<lparr>problem = P, frontier = [], iteration = 0\<rparr>))"
    using assms(2) by (simp add: kcore_prepare_frontier_def)
next
  fix E E1 assume "kcore_sized g (problem E)" "kcore_loop g E = Some E1"
  then show "kcore_sized g (problem E1)" using kcore_loop_sized by blast
next
  fix E :: "kcore_problem enactor" assume "kcore_sized g (problem E)"
  then show "kcore_sized g (problem (E\<lparr>iteration := iteration E + 1\<rparr>))" by simp
next
  fix E :: "kcore_problem enactor" assume "kcore_sized g (problem E)"
  then show "kcore_sized g (problem (snd (kcore_is_converged g E)))"
    by (simp add: kcore_is_converged_def Let_def)
qed

lemma bc_reset_sized:
  assumes "bc_sized g P" and "single_source P < length g"
  shows "bc_reset g P =
           \<lparr>single_source = single_source P,
            sigmas = (replicate (length g) 0)[single_source P := 1],
            bc_values = replicate (length g) 0,
            labels = (replicate (length g) (- 1))[single_source P := 0],
            deltas = replicate (length g) 0\<rparr>"
proof -
  have u: "(replicate n a)[s := b] = replicate s a @ b # replicate (n - Suc s) a"
    if "s < n" for s n and a b :: 'a
    using that by (simp add: upd_conv_take_nth_drop min_def)
  show ?thesis
    using assms
    by (cases P)
      (simp add: bc_reset_def bc_sized_def fill_def fill_n_def Let_def
        get_number_of_vertices_def u)
qed

lemma bc_init_sized:
  "length sg = length g \<Longrightarrow> length bv = length g \<Longrightarrow>
     bc_sized g (bc_init g (bc_problem_t s sg bv)) \<and>
     single_source (bc_init g (bc_problem_t s sg bv)) = s"
  by (simp add: bc_init_def bc_problem_t_def bc_sized_def resize_def Let_def
      get_number_of_vertices_def)

lemma forward_op_sized: "bc_sized g P \<Longrightarrow> bc_sized g (snd (forward_op src dst P))"
  by (simp add: forward_op_eq bc_sized_def Let_def)

lemma backward_op_sized: "bc_sized g P \<Longrightarrow> bc_sized g (snd (backward_op s d src dst P))"
  by (simp add: backward_op_def atomic_add_def bc_sized_def Let_def)

lemma bc_loop_sized:
  assumes "bc_sized g (problem E)"
  shows "bc_sized g (problem (bc_loop g E))"
proof (cases "forward E")
  case True
  have "problem (bc_loop g E) = snd (advance_edges forward_op (frontier_edges g (frontier E)) (problem E))"
    using True by (simp add: bc_loop_def advance_execute_def split: prod.splits)
  then show ?thesis
    using advance_edges_invariant [of "bc_sized g" forward_op, OF forward_op_sized assms]
    by simp
next
  case False
  have "problem (bc_loop g E) =
          snd (advance_edges (backward_op (single_source (problem E)) (depth E))
                 (frontier_edges g (frontier E)) (problem E))"
    using False by (simp add: bc_loop_def advance_execute_def split: prod.splits)
  then show ?thesis
    using advance_edges_invariant [of "bc_sized g" "backward_op (single_source (problem E)) (depth E)",
        OF backward_op_sized assms]
    by simp
qed

lemma bc_is_converged_sized:
  "bc_sized g (problem E) \<Longrightarrow> bc_sized g (problem (snd (bc_is_converged g E)))"
  by (simp add: bc_is_converged_def bc_sized_def transform_prefix_def Let_def
      get_number_of_vertices_def)

lemma bc_enact_sized:
  assumes "bc_enact g P = Some E" and "bc_sized g P"
  shows "bc_sized g (problem E)"
proof (rule enact_rounds_invariant [where I = "\<lambda>E. bc_sized g (problem E)",
      OF assms(1) [unfolded bc_enact_def]])
  show "bc_sized g (problem (bc_prepare_frontier (bc_enactor_t P)))"
    using assms(2) by (simp add: bc_prepare_frontier_def bc_enactor_t_def)
next
  fix E E1 :: bc_enactor assume "bc_sized g (problem E)" "Some (bc_loop g E) = Some E1"
  then show "bc_sized g (problem E1)" using bc_loop_sized by auto
next
  fix E :: bc_enactor assume "bc_sized g (problem E)"
  then show "bc_sized g (problem (E\<lparr>iteration := iteration E + 1\<rparr>))" by simp
next
  fix E :: bc_enactor assume "bc_sized g (problem E)"
  then show "bc_sized g (problem (snd (bc_is_converged g E)))" by (rule bc_is_converged_sized)
qed

text \<open>
  C9. Let a first run on a problem have ended in any final state. \<open>reset\<close> then gives
  every state array its starting value (k-core: core numbers 0, remaining degrees the
  neighbour counts, deleted flags set exactly for the vertices without neighbours,
  to-be-deleted flags false; betweenness centrality, for the new source: sigma 0 except 1
  at the source, centrality 0, labels -1 except 0 at the source, delta 0), which is the
  state \<open>reset\<close> gives a fresh problem; so the second run returns what a run on a fresh
  problem returns.
\<close>

theorem reset_reinitializes:
  assumes "length rk = length g" and "length rk' = length g"
    and "length sg = length g" and "length bv = length g"
    and "length sg' = length g" and "length bv' = length g"
    and "s < length g" and "s' < length g"
  shows "(kcore_run g rk = Some E \<longrightarrow>
            kcore_reset g (problem E) =
              \<lparr>k_cores = replicate (length g) 0,
               degrees = map (\<lambda>nb. int (length nb)) g,
               deleted = map (\<lambda>nb. length nb = 0) g,
               to_be_deleted = replicate (length g) False\<rparr> \<and>
            kcore_reset g (problem E) = kcore_reset g (kcore_init g (kcore_problem_t rk')) \<and>
            kcore_enact g (kcore_reset g (problem E)) = kcore_run g rk') \<and>
         (bc_run g s sg bv = Some B \<longrightarrow>
            bc_reset g ((problem B)\<lparr>single_source := s'\<rparr>) =
              \<lparr>single_source = s',
               sigmas = (replicate (length g) 0)[s' := 1],
               bc_values = replicate (length g) 0,
               labels = (replicate (length g) (- 1))[s' := 0],
               deltas = replicate (length g) 0\<rparr> \<and>
            bc_reset g ((problem B)\<lparr>single_source := s'\<rparr>) =
              bc_reset g (bc_init g (bc_problem_t s' sg' bv')) \<and>
            bc_enact g (bc_reset g ((problem B)\<lparr>single_source := s'\<rparr>)) = bc_run g s' sg' bv')"
proof (intro conjI impI)
  assume r: "kcore_run g rk = Some E"
  have "kcore_sized g (kcore_reset g (kcore_init g (kcore_problem_t rk)))"
    using kcore_reset_sized [OF kcore_init_sized [OF assms(1)]] by (simp add: kcore_sized_def)
  then have s: "kcore_sized g (problem E)"
    using r kcore_enact_sized by (simp add: kcore_run_def)
  show 1: "kcore_reset g (problem E) =
              \<lparr>k_cores = replicate (length g) 0,
               degrees = map (\<lambda>nb. int (length nb)) g,
               deleted = map (\<lambda>nb. length nb = 0) g,
               to_be_deleted = replicate (length g) False\<rparr>"
    using s by (rule kcore_reset_sized)
  show 2: "kcore_reset g (problem E) = kcore_reset g (kcore_init g (kcore_problem_t rk'))"
    using 1 kcore_reset_sized [OF kcore_init_sized [OF assms(2)]] by simp
  show "kcore_enact g (kcore_reset g (problem E)) = kcore_run g rk'"
    using 2 by (simp add: kcore_run_def)
next
  assume r: "bc_run g s sg bv = Some B"
  have i: "bc_sized g (bc_init g (bc_problem_t s sg bv))"
    using bc_init_sized [OF assms(3,4)] by simp
  have "bc_sized g (bc_reset g (bc_init g (bc_problem_t s sg bv)))"
    using bc_reset_sized [OF i] bc_init_sized [OF assms(3,4), of s] assms(7)
    by (simp add: bc_sized_def)
  then have "bc_sized g (problem B)"
    using r bc_enact_sized by (simp add: bc_run_def)
  then have sz: "bc_sized g ((problem B)\<lparr>single_source := s'\<rparr>)"
    by (simp add: bc_sized_def)
  show 1: "bc_reset g ((problem B)\<lparr>single_source := s'\<rparr>) =
              \<lparr>single_source = s',
               sigmas = (replicate (length g) 0)[s' := 1],
               bc_values = replicate (length g) 0,
               labels = (replicate (length g) (- 1))[s' := 0],
               deltas = replicate (length g) 0\<rparr>"
    using bc_reset_sized [OF sz] assms(8) by simp
  show 2: "bc_reset g ((problem B)\<lparr>single_source := s'\<rparr>) =
              bc_reset g (bc_init g (bc_problem_t s' sg' bv'))"
    using 1 bc_reset_sized [of g "bc_init g (bc_problem_t s' sg' bv')"]
      bc_init_sized [OF assms(5,6), of s'] assms(8) by simp
  show "bc_enact g (bc_reset g ((problem B)\<lparr>single_source := s'\<rparr>)) = bc_run g s' sg' bv'"
    using 2 by (simp add: bc_run_def)
qed


theorem reset_reinitializes_witness:
  "length [5, 5, 5 :: int] = length [[1, 2], [0], [0 :: nat]] \<and>
   length [7, 7, 7 :: real] = length [[1, 2], [0], [0 :: nat]] \<and>
   (1 :: nat) < length [[1, 2], [0], [0 :: nat]] \<and>
   kcore_run [[1, 2], [0], [0]] [5, 5, 5] =
     Some \<lparr>problem = \<lparr>k_cores = [1, 1, 1], degrees = [0, 1, 1],
                      deleted = [True, True, True], to_be_deleted = [True, True, True]\<rparr>,
           frontier = [0, 1, 2], iteration = 1\<rparr> \<and>
   kcore_enact [[1, 2], [0], [0]] (kcore_reset [[1, 2], [0], [0]]
       \<lparr>k_cores = [1, 1, 1], degrees = [0, 1, 1],
        deleted = [True, True, True], to_be_deleted = [True, True, True]\<rparr>)
     = kcore_run [[1, 2], [0], [0]] [0, 0, 0] \<and>
   bc_run [[1, 2], [0], [0]] 0 [7, 7, 7] [9, 9, 9] =
     Some \<lparr>problem = \<lparr>single_source = 0, sigmas = [1, 1, 1], bc_values = [0, 0, 0],
                      labels = [0, 1, 1], deltas = [0, 0, 0]\<rparr>,
           frontier = [0, 1, 2], iteration = 3, forward = False, depth = 0\<rparr> \<and>
   bc_enact [[1, 2], [0], [0]] (bc_reset [[1, 2], [0], [0]]
       \<lparr>single_source = 1, sigmas = [1, 1, 1], bc_values = [0, 0, 0],
        labels = [0, 1, 1], deltas = [0, 0, 0]\<rparr>)
     = bc_run [[1, 2], [0], [0]] 1 [0, 0, 0] [0, 0, 0]"
proof -
  let ?g = "[[1, 2], [0], [0 :: nat]]"
  have k: "kcore_run ?g [5, 5, 5] =
     Some \<lparr>problem = \<lparr>k_cores = [1, 1, 1], degrees = [0, 1, 1],
                      deleted = [True, True, True], to_be_deleted = [True, True, True]\<rparr>,
           frontier = [0, 1, 2], iteration = 1\<rparr>"
    by code_simp
  have b: "bc_run ?g 0 [7, 7, 7] [9, 9, 9] =
     Some \<lparr>problem = \<lparr>single_source = 0, sigmas = [1, 1, 1], bc_values = [0, 0, 0],
                      labels = [0, 1, 1], deltas = [0, 0, 0]\<rparr>,
           frontier = [0, 1, 2], iteration = 3, forward = False, depth = 0\<rparr>"
    by code_simp
  have l: "length [5, 5, 5 :: int] = length ?g" "length [0, 0, 0 :: int] = length ?g"
    "length [7, 7, 7 :: real] = length ?g" "length [9, 9, 9 :: real] = length ?g"
    "length [0, 0, 0 :: real] = length ?g" "length [0, 0, 0 :: real] = length ?g"
    "(0 :: nat) < length ?g" "(1 :: nat) < length ?g"
    by simp_all
  let ?EK = "\<lparr>problem = \<lparr>k_cores = [1, 1, 1], degrees = [0, 1, 1],
                      deleted = [True, True, True], to_be_deleted = [True, True, True]\<rparr>,
           frontier = [0, 1, 2], iteration = 1 :: nat\<rparr>"
  let ?EB = "\<lparr>problem = \<lparr>single_source = 0, sigmas = [1, 1, 1], bc_values = [0, 0, 0],
                      labels = [0, 1, 1], deltas = [0, 0, 0]\<rparr>,
           frontier = [0, 1, 2], iteration = 3 :: nat, forward = False, depth = 0\<rparr>"
  from reset_reinitializes [OF l, of ?EK ?EB] k b
  have "kcore_enact ?g (kcore_reset ?g (problem ?EK)) = kcore_run ?g [0, 0, 0]"
    and "bc_enact ?g (bc_reset ?g ((problem ?EB)\<lparr>single_source := 1\<rparr>))
           = bc_run ?g 1 [0, 0, 0] [0, 0, 0]"
    by blast+
  with k b l show ?thesis by simp
qed

section \<open>The source vertex during a betweenness-centrality run\<close>

lemma valid_graph_nth:
  "valid_graph g \<Longrightarrow> v < length g \<Longrightarrow> u \<in> set (g ! v) \<Longrightarrow> u < length g"
  by (auto simp: valid_graph_def list_all_length in_set_conv_nth)

lemma frontier_edges_set:
  "(src, dst) \<in> set (frontier_edges g fr) \<longleftrightarrow> src \<in> set fr \<and> dst \<in> set (g ! src)"
  by (auto simp: frontier_edges_def)

lemma forward_op_source_inv:
  assumes "bc_source_inv g s P" and "0 \<le> labels P ! src" and "dst < length g"
  shows "bc_source_inv g s (snd (forward_op src dst P))"
    and "0 \<le> labels P ! v \<Longrightarrow> 0 \<le> labels (snd (forward_op src dst P)) ! v"
    and "fst (forward_op src dst P) \<Longrightarrow> 0 \<le> labels (snd (forward_op src dst P)) ! dst"
proof -
  have n: "dst < length (labels P)" using assms(1,3) by (simp add: bc_source_inv_def bc_sized_def)
  show "bc_source_inv g s (snd (forward_op src dst P))"
    using assms n by (auto simp: forward_op_eq Let_def bc_source_inv_def bc_sized_def nth_list_update)
  show "0 \<le> labels (snd (forward_op src dst P)) ! v" if "0 \<le> labels P ! v"
    using that assms(2) n by (auto simp: forward_op_eq Let_def nth_list_update)
  show "0 \<le> labels (snd (forward_op src dst P)) ! dst" if "fst (forward_op src dst P)"
    using that assms(2) n by (auto simp: forward_op_eq Let_def nth_list_update split: if_splits)
qed

lemma advance_forward_source_inv:
  assumes "bc_source_inv g s P"
    and "\<forall>(src, dst) \<in> set es. 0 \<le> labels P ! src \<and> dst < length g"
  shows "bc_source_inv g s (snd (advance_edges forward_op es P)) \<and>
         (\<forall>v. 0 \<le> labels P ! v \<longrightarrow> 0 \<le> labels (snd (advance_edges forward_op es P)) ! v) \<and>
         (\<forall>v \<in> set (fst (advance_edges forward_op es P)).
            v < length g \<and> 0 \<le> labels (snd (advance_edges forward_op es P)) ! v)"
  using assms
proof (induction es arbitrary: P)
  case Nil
  then show ?case by simp
next
  case (Cons e es)
  obtain src dst where e: "e = (src, dst)" by (cases e)
  let ?P1 = "snd (forward_op src dst P)"
  have h: "0 \<le> labels P ! src" "dst < length g" using Cons.prems(2) e by auto
  note f = forward_op_source_inv [OF Cons.prems(1) h]
  have "\<forall>(src, dst) \<in> set es. 0 \<le> labels ?P1 ! src \<and> dst < length g"
    using Cons.prems(2) f(2) by auto
  from Cons.IH [OF f(1) this]
  have ih: "bc_source_inv g s (snd (advance_edges forward_op es ?P1))"
    "\<And>v. 0 \<le> labels ?P1 ! v \<Longrightarrow> 0 \<le> labels (snd (advance_edges forward_op es ?P1)) ! v"
    "\<And>v. v \<in> set (fst (advance_edges forward_op es ?P1)) \<Longrightarrow>
        v < length g \<and> 0 \<le> labels (snd (advance_edges forward_op es ?P1)) ! v"
    by blast+
  show ?case
    unfolding e advance_edges_Cons_snd advance_edges_Cons_fst
    using ih f(2,3) h(2) by auto
qed

lemma backward_op_source_inv:
  "bc_source_inv g s P \<Longrightarrow> bc_source_inv g s (snd (backward_op s d src dst P))"
  by (auto simp: backward_op_def atomic_add_def Let_def bc_source_inv_def bc_sized_def)

lemma bc_loop_eq:
  "bc_loop g E =
     (if forward E then
        E\<lparr>problem := snd (advance_edges forward_op (frontier_edges g (frontier E)) (problem E)),
          frontier := fst (advance_edges forward_op (frontier_edges g (frontier E)) (problem E)),
          depth := depth E + 1\<rparr>
      else
        E\<lparr>problem := snd (advance_edges (backward_op (single_source (problem E)) (depth E))
                          (frontier_edges g (frontier E)) (problem E)),
          depth := depth E - 1\<rparr>)"
  by (simp add: bc_loop_def advance_execute_def split: prod.splits)

lemma bc_round_op_prefix_inv:
  assumes "valid_graph g" and "bc_run_inv g s E" and "set es \<subseteq> set (frontier_edges g (frontier E))"
  shows "bc_source_inv g s (snd (advance_edges (bc_round_op E) es (problem E)))"
proof (cases "forward E")
  case True
  have "\<forall>(src, dst) \<in> set es. 0 \<le> labels (problem E) ! src \<and> dst < length g"
    using assms True valid_graph_nth [OF assms(1)]
    by (fastforce simp: bc_run_inv_def frontier_edges_set)
  then show ?thesis
    using advance_forward_source_inv [of g s "problem E" es] assms(2) True
    by (simp add: bc_round_op_def bc_run_inv_def)
next
  case False
  have "single_source (problem E) = s" using assms(2) by (simp add: bc_run_inv_def bc_source_inv_def)
  then show ?thesis
    using advance_edges_invariant [of "bc_source_inv g s" "backward_op s (depth E)" "problem E" es,
        OF backward_op_source_inv] assms(2) False
    by (simp add: bc_round_op_def bc_run_inv_def)
qed

lemma bc_loop_run_inv:
  assumes "valid_graph g" and "bc_run_inv g s E"
  shows "bc_run_inv g s (bc_loop g E)"
proof (cases "forward E")
  case True
  let ?es = "frontier_edges g (frontier E)"
  have "\<forall>(src, dst) \<in> set ?es. 0 \<le> labels (problem E) ! src \<and> dst < length g"
    using assms True valid_graph_nth [OF assms(1)]
    by (fastforce simp: bc_run_inv_def frontier_edges_set)
  from advance_forward_source_inv [OF _ this, of s] assms(2)
  have "bc_source_inv g s (snd (advance_edges forward_op ?es (problem E)))"
    "\<forall>v \<in> set (fst (advance_edges forward_op ?es (problem E))).
            v < length g \<and> 0 \<le> labels (snd (advance_edges forward_op ?es (problem E))) ! v"
    by (simp_all add: bc_run_inv_def)
  then show ?thesis
    using True by (simp add: bc_loop_eq bc_run_inv_def)
next
  case False
  from bc_round_op_prefix_inv [OF assms, of "frontier_edges g (frontier E)"]
  have "bc_source_inv g s (snd (advance_edges (backward_op (single_source (problem E)) (depth E))
          (frontier_edges g (frontier E)) (problem E)))"
    using False by (simp add: bc_round_op_def)
  then show ?thesis
    using False by (simp add: bc_loop_eq bc_run_inv_def)
qed

lemma bc_is_converged_run_inv:
  assumes "bc_run_inv g s E"
  shows "bc_run_inv g s (snd (bc_is_converged g E))"
  using assms
  by (auto simp: bc_is_converged_def Let_def bc_run_inv_def bc_source_inv_def bc_sized_def
      transform_prefix_def get_number_of_vertices_def nth_append)

lemma bc_incr_run_inv:
  "bc_run_inv g s E \<Longrightarrow> bc_run_inv g s (E\<lparr>iteration := iteration E + 1\<rparr>)"
  by (simp add: bc_run_inv_def)

lemma bc_start_run_inv:
  assumes "s < length g" and "length sg = length g" and "length bv = length g"
  shows "bc_run_inv g s
           (bc_prepare_frontier (bc_enactor_t (bc_reset g (bc_init g (bc_problem_t s sg bv)))))"
proof -
  have i: "bc_sized g (bc_init g (bc_problem_t s sg bv))"
    "single_source (bc_init g (bc_problem_t s sg bv)) = s"
    using bc_init_sized [OF assms(2,3), of s] by simp_all
  show ?thesis
    using bc_reset_sized [OF i(1)] i(2) assms(1)
    by (simp add: bc_run_inv_def bc_source_inv_def bc_sized_def bc_prepare_frontier_def
        bc_enactor_t_def push_back_def)
qed

lemma bc_after_run_inv:
  assumes "valid_graph g" and "bc_run_inv g s E"
  shows "bc_run_inv g s (bc_after g m E)"
  using assms(2)
proof (induction m arbitrary: E)
  case 0
  then show ?case by simp
next
  case (Suc m)
  let ?E1 = "(bc_loop g E)\<lparr>iteration := iteration (bc_loop g E) + 1\<rparr>"
  have "bc_run_inv g s ?E1"
    using bc_incr_run_inv [OF bc_loop_run_inv [OF assms(1) Suc.prems]] .
  then have 2: "bc_run_inv g s (snd (bc_is_converged g ?E1))" by (rule bc_is_converged_run_inv)
  show ?case
    using 2 Suc.IH [OF 2] by (simp split: prod.splits) auto
qed

text \<open>
  C8. In a betweenness-centrality run with source \<open>s\<close> on a graph with valid identifiers,
  \<open>sigma[s] = 1\<close> and \<open>bc_values[s] = 0\<close> hold from the completion of \<open>reset\<close> on:
  after every number of rounds, after every predicate call inside every Advance (the state
  reached on any prefix of the edges the Advance visits), and in the final state of a run
  that converges.
\<close>

theorem bc_source_values_fixed:
  assumes "valid_graph g" and "s < length g"
    and "length sg = length g" and "length bv = length g"
    and "E0 = bc_prepare_frontier (bc_enactor_t (bc_reset g (bc_init g (bc_problem_t s sg bv))))"
  shows "(\<forall>m. sigmas (problem (bc_after g m E0)) ! s = 1 \<and>
              bc_values (problem (bc_after g m E0)) ! s = 0) \<and>
         (\<forall>m j. let E = bc_after g m E0;
                    P = snd (advance_edges (bc_round_op E)
                               (take j (frontier_edges g (frontier E))) (problem E))
                in sigmas P ! s = 1 \<and> bc_values P ! s = 0) \<and>
         (\<forall>E'. bc_run g s sg bv = Some E' \<longrightarrow>
              sigmas (problem E') ! s = 1 \<and> bc_values (problem E') ! s = 0)"
proof (intro conjI allI impI)
  have 0: "bc_run_inv g s E0"
    unfolding assms(5) using assms(2-4) by (rule bc_start_run_inv)
  have a: "bc_run_inv g s (bc_after g m E0)" for m
    using assms(1) 0 by (rule bc_after_run_inv)
  show "sigmas (problem (bc_after g m E0)) ! s = 1" "bc_values (problem (bc_after g m E0)) ! s = 0" for m
    using a [of m] by (simp_all add: bc_run_inv_def bc_source_inv_def)
  show "let E = bc_after g m E0;
            P = snd (advance_edges (bc_round_op E)
                       (take j (frontier_edges g (frontier E))) (problem E))
        in sigmas P ! s = 1 \<and> bc_values P ! s = 0" for m j
    using bc_round_op_prefix_inv [OF assms(1) a [of m],
        of "take j (frontier_edges g (frontier (bc_after g m E0)))"]
    by (simp add: Let_def bc_source_inv_def set_take_subset)
  fix E' assume r: "bc_run g s sg bv = Some E'"
  have "bc_run_inv g s E'"
  proof (rule enact_rounds_invariant [where I = "bc_run_inv g s",
        OF r [unfolded bc_run_def bc_enact_def]])
    show "bc_run_inv g s (bc_prepare_frontier (bc_enactor_t (bc_reset g (bc_init g (bc_problem_t s sg bv)))))"
      using 0 assms(5) by simp
  next
    fix E E1 assume "bc_run_inv g s E" "Some (bc_loop g E) = Some E1"
    then show "bc_run_inv g s E1" using bc_loop_run_inv [OF assms(1)] by auto
  next
    fix E assume "bc_run_inv g s E"
    then show "bc_run_inv g s (E\<lparr>iteration := iteration E + 1\<rparr>)" by (rule bc_incr_run_inv)
  next
    fix E assume "bc_run_inv g s E"
    then show "bc_run_inv g s (snd (bc_is_converged g E))" by (rule bc_is_converged_run_inv)
  qed
  then show "sigmas (problem E') ! s = 1" "bc_values (problem E') ! s = 0"
    by (simp_all add: bc_run_inv_def bc_source_inv_def)
qed

theorem bc_source_values_fixed_witness:
  "valid_graph [[1], [0, 2], [1]] \<and> (0 :: nat) < length [[1], [0, 2], [1 :: nat]] \<and>
   length [7, 7, 7 :: real] = length [[1], [0, 2], [1 :: nat]] \<and>
   length [9, 9, 9 :: real] = length [[1], [0, 2], [1 :: nat]] \<and>
   sigmas (problem (bc_after [[1], [0, 2], [1]] 2
     (bc_prepare_frontier (bc_enactor_t (bc_reset [[1], [0, 2], [1]]
        (bc_init [[1], [0, 2], [1]] (bc_problem_t 0 [7, 7, 7] [9, 9, 9]))))))) ! 0 = 1 \<and>
   bc_values (problem (bc_after [[1], [0, 2], [1]] 2
     (bc_prepare_frontier (bc_enactor_t (bc_reset [[1], [0, 2], [1]]
        (bc_init [[1], [0, 2], [1]] (bc_problem_t 0 [7, 7, 7] [9, 9, 9]))))))) ! 0 = 0 \<and>
   bc_run [[1], [0, 2], [1]] 0 [7, 7, 7] [9, 9, 9] =
     Some \<lparr>problem = \<lparr>single_source = 0, sigmas = [1, 1, 1], bc_values = [0, 1 / 2, 0],
                      labels = [0, 1, 2], deltas = [0, 1, 0]\<rparr>,
           frontier = [0, 1, 2], iteration = 5, forward = False, depth = 0\<rparr> \<and>
   sigmas (problem \<lparr>problem = \<lparr>single_source = 0, sigmas = [1, 1, 1], bc_values = [0, 1 / 2, 0],
                      labels = [0, 1, 2], deltas = [0, 1, 0]\<rparr>,
           frontier = [0, 1, 2], iteration = 5, forward = False, depth = 0\<rparr>) ! 0 = 1"
proof -
  let ?g = "[[1], [0, 2], [1 :: nat]]"
  let ?E0 = "bc_prepare_frontier (bc_enactor_t (bc_reset ?g
        (bc_init ?g (bc_problem_t 0 [7, 7, 7] [9, 9, 9]))))"
  have v: "valid_graph ?g" by (simp add: valid_graph_def)
  have l: "(0 :: nat) < length ?g" "length [7, 7, 7 :: real] = length ?g"
    "length [9, 9, 9 :: real] = length ?g"
    by simp_all
  have r: "bc_run ?g 0 [7, 7, 7] [9, 9, 9] =
     Some \<lparr>problem = \<lparr>single_source = 0, sigmas = [1, 1, 1], bc_values = [0, 1 / 2, 0],
                      labels = [0, 1, 2], deltas = [0, 1, 0]\<rparr>,
           frontier = [0, 1, 2], iteration = 5, forward = False, depth = 0\<rparr>"
    by code_simp
  from bc_source_values_fixed [OF v l refl]
  have "sigmas (problem (bc_after ?g 2 ?E0)) ! 0 = 1 \<and> bc_values (problem (bc_after ?g 2 ?E0)) ! 0 = 0"
    by blast
  with v l r show ?thesis by simp
qed

section \<open>k-core decomposition computes the core numbers of the reference\<close>

lemma length_filter_mono:
  assumes "\<And>x. x \<in> set xs \<Longrightarrow> P x \<Longrightarrow> Q x"
  shows "length (filter P xs) \<le> length (filter Q xs)"
  using assms by (induction xs) auto

lemma length_filter_split:
  "length (filter (\<lambda>x. x \<in> A) xs) =
     length (filter (\<lambda>x. x \<in> A - B) xs) + length (filter (\<lambda>x. x \<in> A \<inter> B) xs)"
  by (induction xs) auto

lemma core_set_subset_k_core: "core_set g k S \<Longrightarrow> S \<subseteq> k_core g k"
  by (auto simp: k_core_def)

lemma core_set_k_core: "core_set g k (k_core g k)"
  unfolding core_set_def
proof (intro conjI ballI)
  show "k_core g k \<subseteq> {..<length g}" by (auto simp: k_core_def core_set_def)
next
  fix v assume "v \<in> k_core g k"
  then obtain S where S: "core_set g k S" "v \<in> S" by (auto simp: k_core_def)
  then have "k \<le> length (filter (\<lambda>u. u \<in> S) (g ! v))" by (simp add: core_set_def)
  also have "\<dots> \<le> length (filter (\<lambda>u. u \<in> k_core g k) (g ! v))"
    using core_set_subset_k_core [OF S(1)] by (intro length_filter_mono) auto
  finally show "k \<le> length (filter (\<lambda>u. u \<in> k_core g k) (g ! v))" .
qed

lemma k_core_bound: "v \<in> k_core g k \<Longrightarrow> v < length g"
  using core_set_k_core [of g k] by (auto simp: core_set_def)

lemma k_core_degree:
  "v \<in> k_core g k \<Longrightarrow> k \<le> length (filter (\<lambda>u. u \<in> k_core g k) (g ! v))"
  using core_set_k_core [of g k] by (simp add: core_set_def)

lemma k_core_antimono: "k \<le> k' \<Longrightarrow> k_core g k' \<subseteq> k_core g k"
proof -
  assume "k \<le> k'"
  then have "core_set g k (k_core g k')"
    using core_set_k_core [of g k'] by (fastforce simp: core_set_def)
  then show ?thesis by (rule core_set_subset_k_core)
qed

lemma k_core_0: "k_core g 0 = {..<length g}"
proof
  show "k_core g 0 \<subseteq> {..<length g}" using k_core_bound by auto
  have "core_set g 0 {..<length g}" by (simp add: core_set_def)
  then show "{..<length g} \<subseteq> k_core g 0" by (rule core_set_subset_k_core)
qed

lemma core_number_unique:
  assumes "core_number_is g v c" and "core_number_is g v c'"
  shows "c = c'"
proof (rule ccontr)
  assume "c \<noteq> c'"
  then consider "Suc c \<le> c'" | "Suc c' \<le> c" by linarith
  then show False
  proof cases
    case 1
    then show False using assms k_core_antimono [OF 1, of g] by (auto simp: core_number_is_def)
  next
    case 2
    then show False using assms k_core_antimono [OF 2, of g] by (auto simp: core_number_is_def)
  qed
qed

lemma low_degree_not_in_k_core:
  assumes "k_core g (Suc k) \<subseteq> R" and "length (filter (\<lambda>u. u \<in> R) (g ! v)) \<le> k"
  shows "v \<notin> k_core g (Suc k)"
proof
  assume "v \<in> k_core g (Suc k)"
  then have "Suc k \<le> length (filter (\<lambda>u. u \<in> k_core g (Suc k)) (g ! v))" by (rule k_core_degree)
  also have "\<dots> \<le> length (filter (\<lambda>u. u \<in> R) (g ! v))"
    using assms(1) by (intro length_filter_mono) auto
  finally show False using assms(2) by simp
qed

lemma high_degree_core_set:
  assumes "R \<subseteq> {..<length g}" and "\<And>v. v \<in> R \<Longrightarrow> k \<le> length (filter (\<lambda>u. u \<in> R) (g ! v))"
  shows "R \<subseteq> k_core g k"
  using assms by (intro core_set_subset_k_core) (simp add: core_set_def)

lemma k_core_empty:
  assumes "\<And>v. v < length g \<Longrightarrow> length (g ! v) < k"
  shows "k_core g k = {}"
proof (rule ccontr)
  assume "k_core g k \<noteq> {}"
  then obtain v where v: "v \<in> k_core g k" by auto
  then have "k \<le> length (filter (\<lambda>u. u \<in> k_core g k) (g ! v))" by (rule k_core_degree)
  also have "\<dots> \<le> length (g ! v)" by simp
  finally show False using assms [OF k_core_bound [OF v]] by simp
qed

lemma reference_peel_correct:
  assumes "distinct R" and "set R \<subseteq> {..<length g}"
    and "k_core g (Suc k) \<subseteq> set R" and "set R \<subseteq> k_core g k"
    and "length core = length g"
  shows "length (reference_peel g R k core) = length g \<and>
         (\<forall>v \<in> set R. \<exists>c. reference_peel g R k core ! v = int c \<and> core_number_is g v c) \<and>
         (\<forall>v. v \<notin> set R \<longrightarrow> reference_peel g R k core ! v = core ! v)"
  using assms
proof (induction g R k core rule: reference_peel.induct)
  case (1 g R k core)
  show ?case
  proof (cases "R = []")
    case True
    then have "reference_peel g R k core = core" by (subst reference_peel.simps) simp
    then show ?thesis using True "1.prems" by simp
  next
    case False
    define v where "v = arg_min_list (remaining_degree g R) R"
    define k' where "k' = max k (remaining_degree g R v)"
    let ?R' = "removeAll v R"
    let ?core' = "core[v := int k']"
    have vR: "v \<in> set R" unfolding v_def using False by (rule arg_min_list_in)
    have vmin: "remaining_degree g R v \<le> remaining_degree g R u" if "u \<in> set R" for u
      using f_arg_min_list_f [OF False, of "remaining_degree g R"] that
      by (simp add: v_def)
    have vlen: "v < length core" using vR "1.prems"(2,5) by auto
    have kk': "k \<le> k'" by (simp add: k'_def)
    have up: "k_core g (Suc k') \<subseteq> set R"
      using k_core_antimono [of "Suc k" "Suc k'" g] kk' "1.prems"(3) by auto
    have vout: "v \<notin> k_core g (Suc k')"
      using up by (rule low_degree_not_in_k_core) (simp add: k'_def remaining_degree_def)
    have inR: "set R \<subseteq> k_core g k'"
    proof (cases "remaining_degree g R v \<le> k")
      case True
      then show ?thesis using "1.prems"(4) by (simp add: k'_def max_def)
    next
      case False
      then have "k' = remaining_degree g R v" by (simp add: k'_def max_def)
      then show ?thesis
        using "1.prems"(2) vmin by (intro high_degree_core_set) (auto simp: remaining_degree_def)
    qed
    have cv: "core_number_is g v k'" using vR inR vout by (auto simp: core_number_is_def)
    have p: "distinct ?R'" "set ?R' \<subseteq> {..<length g}" "k_core g (Suc k') \<subseteq> set ?R'"
      "set ?R' \<subseteq> k_core g k'" "length ?core' = length g"
      using "1.prems" up vout inR by (auto simp: distinct_removeAll)
    note ih = "1.IH" [OF False v_def k'_def p]
    have eq: "reference_peel g R k core = reference_peel g ?R' k' ?core'"
      using False by (subst reference_peel.simps) (simp add: Let_def v_def k'_def)
    show ?thesis
    proof (intro conjI ballI allI impI)
      show "length (reference_peel g R k core) = length g" using ih eq by simp
    next
      fix u assume u: "u \<in> set R"
      show "\<exists>c. reference_peel g R k core ! u = int c \<and> core_number_is g u c"
      proof (cases "u = v")
        case True
        then have "reference_peel g ?R' k' ?core' ! u = ?core' ! u" using ih by simp
        then show ?thesis using True cv vlen eq by auto
      next
        case False
        then have "u \<in> set ?R'" using u by simp
        then show ?thesis using ih eq by auto
      qed
    next
      fix u assume u: "u \<notin> set R"
      then have "u \<noteq> v" "u \<notin> set ?R'" using vR by auto
      then show "reference_peel g R k core ! u = core ! u" using ih eq by simp
    qed
  qed
qed

lemma reference_k_cores_correct:
  shows "length (reference_k_cores g) = length g"
    and "v < length g \<Longrightarrow> \<exists>c. reference_k_cores g ! v = int c \<and> core_number_is g v c"
proof -
  have 1: "distinct [0..<length g]" "set [0..<length g] \<subseteq> {..<length g}" by auto
  have 2: "k_core g (Suc 0) \<subseteq> set [0..<length g]" using k_core_bound by fastforce
  have 3: "set [0..<length g] \<subseteq> k_core g 0" by (simp add: k_core_0 lessThan_atLeast0)
  have 4: "length (replicate (length g) (0 :: int)) = length g" by simp
  have r: "length (reference_k_cores g) = length g \<and>
         (\<forall>v \<in> set [0..<length g]. \<exists>c. reference_k_cores g ! v = int c \<and> core_number_is g v c)"
    unfolding reference_k_cores_def
    using reference_peel_correct [OF 1 2 3 4] by blast
  show "length (reference_k_cores g) = length g" using r by simp
  show "\<exists>c. reference_k_cores g ! v = int c \<and> core_number_is g v c" if "v < length g"
    using r that by simp
qed

lemma advance_op_eq:
  "advance_op k src dst P =
     (if peelable k P src then
        (\<not> deleted P ! dst,
         P\<lparr>k_cores := (k_cores P)[src := int k], to_be_deleted := (to_be_deleted P)[src := True]\<rparr>)
      else (False, P))"
  by (auto simp: advance_op_def peelable_def Let_def)

lemma advance_op_frame:
  "deleted (snd (advance_op k src dst P)) = deleted P"
  "degrees (snd (advance_op k src dst P)) = degrees P"
  "peelable k (snd (advance_op k src dst P)) = peelable k P"
  by (auto simp: advance_op_eq peelable_def fun_eq_iff)

lemma advance_kcore_effect:
  "deleted (snd (advance_edges (advance_op k) es P)) = deleted P \<and>
   degrees (snd (advance_edges (advance_op k) es P)) = degrees P \<and>
   length (k_cores (snd (advance_edges (advance_op k) es P))) = length (k_cores P) \<and>
   length (to_be_deleted (snd (advance_edges (advance_op k) es P))) = length (to_be_deleted P) \<and>
   fst (advance_edges (advance_op k) es P) =
     map snd (filter (\<lambda>(src, dst). peelable k P src \<and> \<not> deleted P ! dst) es) \<and>
   (\<forall>v < length (k_cores P).
      k_cores (snd (advance_edges (advance_op k) es P)) ! v =
        (if peelable k P v \<and> v \<in> fst ` set es then int k else k_cores P ! v)) \<and>
   (\<forall>v < length (to_be_deleted P).
      to_be_deleted (snd (advance_edges (advance_op k) es P)) ! v =
        (peelable k P v \<and> v \<in> fst ` set es \<or> to_be_deleted P ! v))"
proof (induction es arbitrary: P)
  case Nil
  then show ?case by simp
next
  case (Cons e es)
  obtain src dst where e: "e = (src, dst)" by (cases e)
  let ?P1 = "snd (advance_op k src dst P)"
  note f = advance_op_frame [of k src dst P]
  note ih = Cons.IH [of ?P1, unfolded f]
  have l: "length (k_cores ?P1) = length (k_cores P)"
    "length (to_be_deleted ?P1) = length (to_be_deleted P)"
    by (simp_all add: advance_op_eq)
  have kc: "k_cores ?P1 ! v = (if peelable k P src \<and> v = src then int k else k_cores P ! v)"
    if "v < length (k_cores P)" for v
    using that by (simp add: advance_op_eq nth_list_update)
  have tb: "to_be_deleted ?P1 ! v = (peelable k P src \<and> v = src \<or> to_be_deleted P ! v)"
    if "v < length (to_be_deleted P)" for v
    using that by (cases "v = src") (simp_all add: advance_op_eq)
  have o: "fst (advance_op k src dst P) = (peelable k P src \<and> \<not> deleted P ! dst)"
    by (simp add: advance_op_eq)
  show ?case
    unfolding e advance_edges_Cons_snd advance_edges_Cons_fst
    using ih l kc tb o by auto
qed

lemma filter_op_frame:
  "deleted (snd (filter_op k v P)) = deleted P"
  "k_cores (snd (filter_op k v P)) = k_cores P"
  "to_be_deleted (snd (filter_op k v P)) = to_be_deleted P"
  "length (degrees (snd (filter_op k v P))) = length (degrees P)"
  by (simp_all add: filter_op_eq)

lemma filter_kcore_effect:
  "deleted (snd (filter_execute (filter_op k) f P)) = deleted P \<and>
   k_cores (snd (filter_execute (filter_op k) f P)) = k_cores P \<and>
   to_be_deleted (snd (filter_execute (filter_op k) f P)) = to_be_deleted P \<and>
   length (degrees (snd (filter_execute (filter_op k) f P))) = length (degrees P) \<and>
   set (fst (filter_execute (filter_op k) f P)) \<subseteq> set f \<and>
   (\<forall>v < length (degrees P).
      degrees (snd (filter_execute (filter_op k) f P)) ! v =
        degrees P ! v - (if deleted P ! v then 0 else int (count_list f v)) \<and>
      count_list (fst (filter_execute (filter_op k) f P)) v =
        (if \<not> deleted P ! v \<and>
            degrees (snd (filter_execute (filter_op k) f P)) ! v \<le> int k \<and>
            int k < degrees P ! v
         then 1 else 0))"
proof (induction f arbitrary: P)
  case Nil
  then show ?case by simp
next
  case (Cons x xs)
  let ?P1 = "snd (filter_op k x P)"
  note f = filter_op_frame [of k x P]
  note ih = Cons.IH [of ?P1, unfolded f]
  have d: "degrees ?P1 ! v = (if v = x \<and> \<not> deleted P ! x then degrees P ! v - 1 else degrees P ! v)"
    if "v < length (degrees P)" for v
    using that by (simp add: filter_op_eq nth_list_update)
  have o: "fst (filter_op k x P) = (\<not> deleted P ! x \<and> degrees P ! x = int k + 1)"
    by (simp add: filter_op_eq)
  show ?case
    unfolding filter_execute_Cons_snd filter_execute_Cons_fst
    using ih d o by (auto simp: f)
qed

lemma undirected_valid: "undirected g \<Longrightarrow> valid_graph g"
  by (simp add: undirected_def)

lemma undirected_sym:
  "undirected g \<Longrightarrow> u < length g \<Longrightarrow> v < length g \<Longrightarrow>
     count_list (g ! u) v = count_list (g ! v) u"
  by (simp add: undirected_def list_all_iff)

lemma length_filter_disj:
  assumes "\<And>y. y \<in> set ys \<Longrightarrow> \<not> (P y \<and> Q y)"
  shows "length (filter (\<lambda>y. P y \<or> Q y) ys) = length (filter P ys) + length (filter Q ys)"
  using assms by (induction ys) auto

lemma sum_count_list_distinct:
  "distinct xs \<Longrightarrow>
     sum_list (map (count_list ys) xs) = length (filter (\<lambda>y. y \<in> set xs) ys)"
proof (induction xs)
  case Nil
  then show ?case by simp
next
  case (Cons x xs)
  have "length (filter (\<lambda>y. y \<in> set (x # xs)) ys)
          = length (filter (\<lambda>y. x = y \<or> y \<in> set xs) ys)"
    by (intro arg_cong [where f = length] filter_cong) auto
  also have "\<dots> = length (filter ((=) x) ys) + length (filter (\<lambda>y. y \<in> set xs) ys)"
    using Cons.prems by (intro length_filter_disj) auto
  finally show ?case
    using Cons by (simp add: count_list_eq_length_filter)
qed

lemma count_advance_output_one:
  "count_list (map snd (filter (\<lambda>(src, dst). A src \<and> \<not> D ! dst) (map (Pair s) xs))) v =
     (if A s \<and> \<not> D ! v then count_list xs v else 0)"
  by (induction xs) auto

lemma count_advance_output:
  "count_list (map snd (filter (\<lambda>(src, dst). A src \<and> \<not> D ! dst) (frontier_edges g f))) v =
     (if D ! v then 0 else sum_list (map (\<lambda>s. count_list (g ! s) v) (filter A f)))"
proof (induction f)
  case Nil
  then show ?case by (simp add: frontier_edges_def)
next
  case (Cons s f)
  have "frontier_edges g (s # f) = map (Pair s) (g ! s) @ frontier_edges g f"
    by (simp add: frontier_edges_def)
  then show ?case using Cons by (simp add: count_advance_output_one)
qed

lemma count_le_one_distinct:
  "(\<And>v. count_list xs v \<le> 1) \<Longrightarrow> distinct xs"
proof (induction xs)
  case Nil
  then show ?case by simp
next
  case (Cons x xs)
  have "count_list xs v \<le> 1" for v
    using Cons.prems [of v] by (simp split: if_splits)
  then have "distinct xs" by (rule Cons.IH)
  moreover have "count_list xs x = 0" using Cons.prems [of x] by simp
  ultimately show ?case by (simp add: count_list_0_iff)
qed

lemma kcore_round_eq:
  "kcore_round g k f P =
     filter_execute (filter_op k)
       (fst (advance_edges (advance_op k) (frontier_edges g f) P))
       (mark_deleted g (snd (advance_edges (advance_op k) (frontier_edges g f) P)))"
  by (simp add: kcore_round_def advance_execute_def split: prod.splits)

lemma kcore_round_step:
  assumes und: "undirected g" and k1: "1 \<le> k"
    and inv: "kcore_inv g k P" and fr: "frontier_inv k P f"
  defines "B \<equiv> {v \<in> remaining P. degrees P ! v \<le> int k}"
  shows "kcore_inv g k (snd (kcore_round g k f P))"
    and "frontier_inv k (snd (kcore_round g k f P)) (fst (kcore_round g k f P))"
    and "remaining (snd (kcore_round g k f P)) = remaining P - B"
    and "B = {} \<Longrightarrow> fst (kcore_round g k f P) = []"
proof -
  let ?n = "length g"
  let ?R = "remaining P"
  let ?es = "frontier_edges g f"
  let ?PA = "snd (advance_edges (advance_op k) ?es P)"
  let ?f1 = "fst (advance_edges (advance_op k) ?es P)"
  let ?PM = "mark_deleted g ?PA"
  let ?P2 = "snd (filter_execute (filter_op k) ?f1 ?PM)"
  let ?f2 = "fst (filter_execute (filter_op k) ?f1 ?PM)"
  have r: "kcore_round g k f P = (?f2, ?P2)" by (simp add: kcore_round_eq)
  have len: "length (k_cores P) = ?n" "length (degrees P) = ?n" "length (deleted P) = ?n"
    "length (to_be_deleted P) = ?n"
    using inv by (simp_all add: kcore_inv_def kcore_sized_def)
  have Rn: "?R \<subseteq> {..<?n}" using len by (auto simp: remaining_def)
  have BR: "B \<subseteq> ?R" by (auto simp: B_def)
  have fn: "set f \<subseteq> {..<?n}" "distinct f" "B \<subseteq> set f"
    using fr len by (auto simp: frontier_inv_def B_def)
  have low: "k_core g (Suc k) \<subseteq> ?R" and high: "?R \<subseteq> k_core g k"
    and deg: "\<And>v. v \<in> ?R \<Longrightarrow> degrees P ! v = int (length (filter (\<lambda>u. u \<in> ?R) (g ! v)))"
    and tbd: "\<And>v. v < ?n \<Longrightarrow> to_be_deleted P ! v \<Longrightarrow> deleted P ! v"
    and cores: "\<And>v. v < ?n \<Longrightarrow> deleted P ! v \<Longrightarrow> \<exists>c. k_cores P ! v = int c \<and> core_number_is g v c"
    using inv by (auto simp: kcore_inv_def)
  \<comment> \<open>the vertices peeled in this round\<close>
  have pB: "peelable k P v \<longleftrightarrow> v \<in> B" if "v < ?n" for v
  proof (cases "v \<in> ?R")
    case True
    then have "0 \<le> degrees P ! v" using deg [of v] by simp
    then show ?thesis using True by (simp add: peelable_def B_def remaining_def unsigned_greater_def not_less)
  next
    case False
    then show ?thesis using that len by (auto simp: peelable_def B_def remaining_def)
  qed
  have Bne: "g ! v \<noteq> []" if "v \<in> B" for v
  proof -
    have "v \<in> k_core g k" using that BR high by auto
    then have "k \<le> length (filter (\<lambda>u. u \<in> k_core g k) (g ! v))" by (rule k_core_degree)
    then have "1 \<le> length (g ! v)"
      using k1 length_filter_le [of "\<lambda>u. u \<in> k_core g k" "g ! v"] by linarith
    then show ?thesis by auto
  qed
  have src: "peelable k P v \<and> v \<in> fst ` set ?es \<longleftrightarrow> v \<in> B" if "v < ?n" for v
  proof
    assume "peelable k P v \<and> v \<in> fst ` set ?es"
    then show "v \<in> B" using pB [OF that] by simp
  next
    assume b: "v \<in> B"
    then obtain d where "d \<in> set (g ! v)" using Bne [OF b] by (cases "g ! v") auto
    then have "(v, d) \<in> set ?es" using b fn(3) by (auto simp: frontier_edges_set)
    then have "v \<in> fst ` set ?es" by force
    then show "peelable k P v \<and> v \<in> fst ` set ?es" using pB [OF that] b by simp
  qed
  \<comment> \<open>Advance\<close>
  note adv = advance_kcore_effect [of k ?es P]
  have A: "deleted ?PA = deleted P" "degrees ?PA = degrees P"
    "length (k_cores ?PA) = ?n" "length (to_be_deleted ?PA) = ?n"
    using adv len by simp_all
  have Akc: "k_cores ?PA ! v = (if v \<in> B then int k else k_cores P ! v)" if "v < ?n" for v
    using adv that len src [OF that] by simp
  have Atb: "to_be_deleted ?PA ! v = (v \<in> B \<or> to_be_deleted P ! v)" if "v < ?n" for v
    using adv that len src [OF that] by simp
  have f1: "?f1 = map snd (filter (\<lambda>(src, dst). peelable k P src \<and> \<not> deleted P ! dst) ?es)"
    using adv by simp
  have f1n: "set ?f1 \<subseteq> {..<?n}"
    using fn(1) valid_graph_nth [OF undirected_valid [OF und]]
    by (auto simp: f1 frontier_edges_set)
  \<comment> \<open>the transform that merges to-be-deleted into deleted\<close>
  have M: "k_cores ?PM = k_cores ?PA" "degrees ?PM = degrees P"
    "to_be_deleted ?PM = to_be_deleted ?PA" "length (deleted ?PM) = ?n"
    using A len by (simp_all add: mark_deleted_def transform_index_def get_number_of_vertices_def)
  have Md: "deleted ?PM ! v = (deleted P ! v \<or> v \<in> B)" if "v < ?n" for v
  proof -
    have "deleted ?PM ! v = (deleted ?PA ! v \<or> to_be_deleted ?PA ! v)"
      using that len A
      by (simp add: mark_deleted_def transform_index_def get_number_of_vertices_def nth_append)
    then show ?thesis using A Atb [OF that] tbd [OF that] by auto
  qed
  \<comment> \<open>Filter\<close>
  note fil = filter_kcore_effect [of k ?f1 ?PM]
  have F: "deleted ?P2 = deleted ?PM" "k_cores ?P2 = k_cores ?PA"
    "to_be_deleted ?P2 = to_be_deleted ?PA" "length (degrees ?P2) = ?n"
    "set ?f2 \<subseteq> set ?f1"
    using fil M len by simp_all
  have Fd: "degrees ?P2 ! v = degrees P ! v - (if deleted ?PM ! v then 0 else int (count_list ?f1 v))"
    and Fc: "count_list ?f2 v =
        (if \<not> deleted ?PM ! v \<and> degrees ?P2 ! v \<le> int k \<and> int k < degrees P ! v then 1 else 0)"
    if "v < ?n" for v
    using fil that M len by simp_all
  have R2: "remaining ?P2 = ?R - B"
    using F(1) M(4) Md len BR Rn by (auto simp: remaining_def)
  \<comment> \<open>each remaining vertex loses one unit of degree per peeled neighbour\<close>
  have cnt: "count_list ?f1 v = length (filter (\<lambda>u. u \<in> B) (g ! v))" if v: "v \<in> ?R" for v
  proof -
    have vn: "v < ?n" and nd: "\<not> deleted P ! v" using v len by (auto simp: remaining_def)
    have "count_list ?f1 v = sum_list (map (\<lambda>s. count_list (g ! s) v) (filter (peelable k P) f))"
      using nd by (simp add: f1 count_advance_output)
    also have "\<dots> = sum_list (map (count_list (g ! v)) (filter (peelable k P) f))"
      using fn(1) vn by (intro arg_cong [where f = sum_list] map_cong refl undirected_sym [OF und]) auto
    also have "\<dots> = length (filter (\<lambda>u. u \<in> set (filter (peelable k P) f)) (g ! v))"
      using fn(2) by (intro sum_count_list_distinct) simp
    also have "set (filter (peelable k P) f) = B"
      using fn pB by auto
    finally show ?thesis .
  qed
  have deg2: "degrees ?P2 ! v = int (length (filter (\<lambda>u. u \<in> ?R - B) (g ! v)))"
    if v: "v \<in> ?R - B" for v
  proof -
    have vn: "v < ?n" using v Rn by auto
    have nd: "\<not> deleted ?PM ! v" using v Md [OF vn] len by (auto simp: remaining_def)
    have "?R \<inter> B = B" using BR by auto
    then have "length (filter (\<lambda>u. u \<in> ?R) (g ! v)) =
          length (filter (\<lambda>u. u \<in> ?R - B) (g ! v)) + length (filter (\<lambda>u. u \<in> B) (g ! v))"
      using length_filter_split [of ?R "g ! v" B] by simp
    then show ?thesis using Fd [OF vn] nd deg [of v] cnt [of v] v by simp
  qed
  have notB: "v \<notin> k_core g (Suc k)" if "v \<in> B" for v
  proof (rule low_degree_not_in_k_core [OF low])
    show "length (filter (\<lambda>u. u \<in> ?R) (g ! v)) \<le> k"
      using that deg [of v] by (auto simp: B_def)
  qed
  show "remaining (snd (kcore_round g k f P)) = ?R - B" using R2 r by simp
  show "kcore_inv g k (snd (kcore_round g k f P))"
    unfolding r snd_conv kcore_inv_def
  proof (intro conjI ballI allI impI)
    show "kcore_sized g ?P2" using F A M by (simp add: kcore_sized_def)
    show "k_core g (Suc k) \<subseteq> remaining ?P2" using R2 low notB by auto
    show "remaining ?P2 \<subseteq> k_core g k" using R2 high by auto
  next
    fix v assume "v \<in> remaining ?P2"
    then show "degrees ?P2 ! v = int (length (filter (\<lambda>u. u \<in> remaining ?P2) (g ! v)))"
      using deg2 [of v] R2 by simp
  next
    fix v assume "v < ?n" "to_be_deleted ?P2 ! v"
    then show "deleted ?P2 ! v" using F Atb [of v] Md [of v] tbd [of v] by auto
  next
    fix v assume v: "v < ?n" "deleted ?P2 ! v"
    show "\<exists>c. k_cores ?P2 ! v = int c \<and> core_number_is g v c"
    proof (cases "v \<in> B")
      case True
      then have "core_number_is g v k" using notB BR high by (auto simp: core_number_is_def)
      then show ?thesis using True F Akc [OF v(1)] by auto
    next
      case False
      then have "deleted P ! v" using v F Md [OF v(1)] by simp
      then show ?thesis using False F Akc [OF v(1)] cores [OF v(1)] by simp
    qed
  qed
  show "frontier_inv k (snd (kcore_round g k f P)) (fst (kcore_round g k f P))"
    unfolding r snd_conv fst_conv frontier_inv_def
  proof (intro conjI)
    have "count_list ?f2 v \<le> 1" for v
    proof (cases "v < ?n")
      case True
      then show ?thesis using Fc by simp
    next
      case False
      then have "v \<notin> set ?f2" using F(5) f1n by auto
      then show ?thesis by simp
    qed
    then show "distinct ?f2" by (rule count_le_one_distinct)
    show "set ?f2 \<subseteq> {..<length (deleted ?P2)}" using F M f1n by auto
    show "{v \<in> remaining ?P2. degrees ?P2 ! v \<le> int k} \<subseteq> set ?f2"
    proof
      fix v assume "v \<in> {v \<in> remaining ?P2. degrees ?P2 ! v \<le> int k}"
      then have v: "v \<in> ?R" "v \<notin> B" "degrees ?P2 ! v \<le> int k" using R2 by auto
      then have vn: "v < ?n" using Rn by auto
      have "\<not> deleted ?PM ! v" using v Md [OF vn] len by (auto simp: remaining_def)
      moreover have "int k < degrees P ! v" using v by (auto simp: B_def)
      ultimately have "count_list ?f2 v = 1" using Fc [OF vn] v(3) by simp
      then show "v \<in> set ?f2" using count_list_0_iff [of ?f2 v] by auto
    qed
  qed
  show "fst (kcore_round g k f P) = []" if "B = {}"
  proof -
    have "filter (\<lambda>(src, dst). peelable k P src \<and> \<not> deleted P ! dst) ?es = []"
      using that fn(1) pB by (auto simp: filter_empty_conv frontier_edges_set)
    then have "?f1 = []" by (simp add: f1)
    then show ?thesis using r by simp
  qed
qed

lemma kcore_while_unfold:
  "kcore_while g k f P =
     (if f = [] then Some (f, P)
      else kcore_while g k (fst (kcore_round g k f P)) (snd (kcore_round g k f P)))"
  by (subst kcore_while.simps) (simp add: kcore_round_def is_empty_def split: prod.splits)

lemma finite_remaining: "finite (remaining P)"
  by (simp add: remaining_def)

lemma kcore_while_total:
  assumes und: "undirected g" and k1: "1 \<le> k"
  shows "kcore_inv g k P \<Longrightarrow> frontier_inv k P f \<Longrightarrow>
         \<exists>P'. kcore_while g k f P = Some ([], P') \<and> kcore_inv g k P' \<and>
              remaining P' = k_core g (Suc k)"
proof (induction "2 * card (remaining P) + (if f = [] then 0 else 1)" arbitrary: P f
    rule: less_induct)
  case less
  note inv = less.prems(1) and fr = less.prems(2)
  define B where "B = {v \<in> remaining P. degrees P ! v \<le> int k}"
  show ?case
  proof (cases "f = []")
    case True
    then have B: "B = {}" using fr by (auto simp: frontier_inv_def B_def)
    have Rn: "remaining P \<subseteq> {..<length g}"
      using inv by (auto simp: remaining_def kcore_inv_def kcore_sized_def)
    have "Suc k \<le> length (filter (\<lambda>u. u \<in> remaining P) (g ! v))" if "v \<in> remaining P" for v
    proof -
      have "int k < degrees P ! v" using B that by (auto simp: B_def)
      moreover have "degrees P ! v = int (length (filter (\<lambda>u. u \<in> remaining P) (g ! v)))"
        using inv that by (simp add: kcore_inv_def)
      ultimately show ?thesis by simp
    qed
    with Rn have "remaining P \<subseteq> k_core g (Suc k)" by (rule high_degree_core_set)
    moreover have "k_core g (Suc k) \<subseteq> remaining P" using inv by (simp add: kcore_inv_def)
    ultimately have "remaining P = k_core g (Suc k)" by auto
    then show ?thesis using True inv by (subst kcore_while_unfold) simp
  next
    case False
    let ?f2 = "fst (kcore_round g k f P)"
    let ?P2 = "snd (kcore_round g k f P)"
    note st = kcore_round_step [OF und k1 inv fr, folded B_def]
    have "2 * card (remaining ?P2) + (if ?f2 = [] then 0 else 1)
            < 2 * card (remaining P) + (if f = [] then 0 else 1)"
    proof (cases "B = {}")
      case True
      then have "remaining ?P2 = remaining P" "?f2 = []" using st(3,4) by simp_all
      then show ?thesis using False by simp
    next
      case nonempty: False
      then have "remaining P - B \<subset> remaining P" by (auto simp: B_def)
      then have "card (remaining ?P2) < card (remaining P)"
        using st(3) finite_remaining [of P] by (simp add: psubset_card_mono)
      then show ?thesis using False by auto
    qed
    from less.hyps [OF this st(1,2)]
    show ?thesis using False by (subst kcore_while_unfold) simp
  qed
qed

lemma kcore_inv_next:
  assumes "kcore_inv g k P" and "remaining P = k_core g (Suc k)"
  shows "kcore_inv g (Suc k) P"
  using assms k_core_antimono [of "Suc k" "Suc (Suc k)" g]
  by (auto simp: kcore_inv_def)

lemma frontier_inv_sequence:
  assumes "kcore_sized g P"
  shows "frontier_inv k P (sequence 0 (get_number_of_vertices g))"
  using assms
  by (auto simp: frontier_inv_def sequence_def get_number_of_vertices_def kcore_sized_def
      remaining_def)

lemma graph_empty_iff:
  "list_all (\<lambda>b. b) (deleted P) \<longleftrightarrow> remaining P = {}"
  by (auto simp: list_all_length remaining_def)

lemma degree_le_Max:
  assumes "v < length g"
  shows "length (g ! v) \<le> Max (insert 0 (length ` set g))"
  using assms by (intro Max_ge) auto

lemma kcore_rounds_total:
  assumes und: "undirected g"
  shows "kcore_inv g (Suc (iteration E)) (problem E) \<Longrightarrow>
         frontier E = sequence 0 (get_number_of_vertices g) \<Longrightarrow>
         \<exists>E'. enact_rounds (kcore_loop g) (kcore_is_converged g) E = Some E' \<and>
              kcore_sized g (problem E') \<and>
              (\<forall>v < length g. \<exists>c. k_cores (problem E') ! v = int c \<and> core_number_is g v c)"
proof (induction "Max (insert 0 (length ` set g)) - iteration E" arbitrary: E rule: less_induct)
  case less
  let ?k = "Suc (iteration E)"
  note inv = less.prems(1)
  have sz: "kcore_sized g (problem E)" using inv by (simp add: kcore_inv_def)
  have fr: "frontier_inv ?k (problem E) (frontier E)"
    unfolding less.prems(2) using sz by (rule frontier_inv_sequence)
  from kcore_while_total [OF und _ inv fr]
  obtain P' where w: "kcore_while g ?k (frontier E) (problem E) = Some ([], P')"
    and inv': "kcore_inv g ?k P'" and R': "remaining P' = k_core g (Suc ?k)"
    by auto
  have sz': "kcore_sized g P'" using inv' by (simp add: kcore_inv_def)
  let ?E1 = "E\<lparr>problem := P', frontier := []\<rparr>"
  let ?E2 = "?E1\<lparr>iteration := iteration ?E1 + 1\<rparr>"
  let ?E3 = "?E2\<lparr>frontier := sequence 0 (get_number_of_vertices g)\<rparr>"
  have l: "kcore_loop g E = Some ?E1" using w by (simp add: kcore_loop_def)
  have c: "kcore_is_converged g ?E2 = (remaining P' = {}, ?E3)"
    by (simp add: kcore_is_converged_def Let_def graph_empty_iff)
  show ?case
  proof (cases "remaining P' = {}")
    case True
    have run: "enact_rounds (kcore_loop g) (kcore_is_converged g) E = Some ?E3"
      using l c True by (subst enact_rounds.simps) simp
    have "\<exists>c. k_cores P' ! v = int c \<and> core_number_is g v c" if "v < length g" for v
    proof -
      have "deleted P' ! v" using True that sz' by (auto simp: remaining_def kcore_sized_def)
      then show ?thesis using inv' that by (simp add: kcore_inv_def)
    qed
    then show ?thesis using run sz' by simp
  next
    case False
    have run: "enact_rounds (kcore_loop g) (kcore_is_converged g) E
                 = enact_rounds (kcore_loop g) (kcore_is_converged g) ?E3"
      using l c False by (subst enact_rounds.simps) simp
    have "\<not> (\<forall>v < length g. length (g ! v) < Suc ?k)"
      using False R' k_core_empty [of g "Suc ?k"] by auto
    then obtain v where "v < length g" "Suc ?k \<le> length (g ! v)" by (auto simp: not_less)
    then have "Suc ?k \<le> Max (insert 0 (length ` set g))"
      using degree_le_Max [of v g] by linarith
    then have m: "Max (insert 0 (length ` set g)) - iteration ?E3
                    < Max (insert 0 (length ` set g)) - iteration E"
      by simp
    have i: "kcore_inv g (Suc (iteration ?E3)) (problem ?E3)"
      using kcore_inv_next [OF inv' R'] by simp
    from less.hyps [OF m i] run show ?thesis by simp
  qed
qed

lemma kcore_start_inv:
  assumes und: "undirected g" and "length (rk :: int list) = length g"
  shows "kcore_inv g (Suc 0) (kcore_reset g (kcore_init g (kcore_problem_t rk)))"
proof -
  let ?P = "kcore_reset g (kcore_init g (kcore_problem_t rk))"
  let ?n = "length g"
  have P: "?P = \<lparr>k_cores = replicate ?n 0, degrees = map (\<lambda>nb. int (length nb)) g,
                 deleted = map (\<lambda>nb. length nb = 0) g, to_be_deleted = replicate ?n False\<rparr>"
    using kcore_reset_sized [OF kcore_init_sized [OF assms(2)]] .
  have R: "remaining ?P = {v. v < ?n \<and> g ! v \<noteq> []}"
    by (auto simp: P remaining_def)
  have nb: "u \<in> remaining ?P" if "v < ?n" "u \<in> set (g ! v)" for u v
  proof -
    have u: "u < ?n" using valid_graph_nth [OF undirected_valid [OF und] that] .
    have "count_list (g ! v) u \<noteq> 0" using that(2) by (simp add: count_list_0_iff)
    then have "count_list (g ! u) v \<noteq> 0" using undirected_sym [OF und u that(1)] by simp
    then have "g ! u \<noteq> []" by (cases "g ! u") simp_all
    then show ?thesis using u by (simp add: R)
  qed
  have full: "filter (\<lambda>u. u \<in> remaining ?P) (g ! v) = g ! v" if "v < ?n" for v
    unfolding filter_id_conv using nb [OF that] by blast
  have k1: "k_core g (Suc 0) \<subseteq> remaining ?P"
  proof
    fix v assume v: "v \<in> k_core g (Suc 0)"
    then have "Suc 0 \<le> length (filter (\<lambda>u. u \<in> k_core g (Suc 0)) (g ! v))" by (rule k_core_degree)
    then have "Suc 0 \<le> length (g ! v)"
      using length_filter_le [of "\<lambda>u. u \<in> k_core g (Suc 0)" "g ! v"] by linarith
    then have "g ! v \<noteq> []" by (cases "g ! v") simp_all
    then show "v \<in> remaining ?P" using k_core_bound [OF v] by (simp add: R)
  qed
  show ?thesis
    unfolding kcore_inv_def
  proof (intro conjI ballI allI impI)
    show "kcore_sized g ?P" by (simp add: P kcore_sized_def)
    show "k_core g (Suc (Suc 0)) \<subseteq> remaining ?P"
      using k1 k_core_antimono [of "Suc 0" "Suc (Suc 0)" g] by auto
    show "remaining ?P \<subseteq> k_core g (Suc 0)"
    proof (rule high_degree_core_set)
      show "remaining ?P \<subseteq> {..<?n}" by (auto simp: R)
      fix v assume "v \<in> remaining ?P"
      then have "v < ?n" "g ! v \<noteq> []" by (simp_all add: R)
      then have "0 < length (g ! v)"
        and "length (filter (\<lambda>u. u \<in> remaining ?P) (g ! v)) = length (g ! v)"
        using full [of v] by simp_all
      then show "Suc 0 \<le> length (filter (\<lambda>u. u \<in> remaining ?P) (g ! v))"
        by linarith
    qed
  next
    fix v assume "v \<in> remaining ?P"
    then have v: "v < ?n" by (simp add: R)
    then have "degrees ?P ! v = int (length (g ! v))" by (simp add: P)
    then show "degrees ?P ! v = int (length (filter (\<lambda>u. u \<in> remaining ?P) (g ! v)))"
      using full [OF v] by simp
  next
    fix v assume "v < ?n" "to_be_deleted ?P ! v"
    then show "deleted ?P ! v" by (simp add: P)
  next
    fix v assume v: "v < ?n" "deleted ?P ! v"
    then have "g ! v = []" by (simp add: P)
    then have "v \<notin> remaining ?P" by (simp add: R)
    then have "v \<notin> k_core g (Suc 0)" using k1 by auto
    moreover have "v \<in> k_core g 0" using v(1) by (simp add: k_core_0)
    ultimately have "core_number_is g v 0" by (simp add: core_number_is_def)
    moreover have "k_cores ?P ! v = int 0" using v(1) by (simp add: P)
    ultimately show "\<exists>c. k_cores ?P ! v = int c \<and> core_number_is g v c" by blast
  qed
qed

text \<open>
  One pass of the inner loop on the triangle 0, 1, 2 with the pendant vertex 3 attached to
  2, at threshold 1. Visiting every edge once leaves vertex 2 with the counter 2 and an
  empty frontier; visiting every edge twice decrements the counter of vertex 2 twice, to 1,
  and re-admits it, so that vertex 2 would be peeled at threshold 1 although its core
  number is 2. The exactly-once visit of the modelled Advance is therefore needed below.
\<close>

lemma kcore_pass_visiting_twice:
  "filter_execute (filter_op 1)
     (fst (advance_edges (advance_op 1)
        (frontier_edges [[1, 2], [0, 2], [0, 1, 3], [2]] [0, 1, 2, 3])
        (kcore_reset [[1, 2], [0, 2], [0, 1, 3], [2]]
           (kcore_init [[1, 2], [0, 2], [0, 1, 3], [2]] (kcore_problem_t [0, 0, 0, 0])))))
     (mark_deleted [[1, 2], [0, 2], [0, 1, 3], [2]]
        (snd (advance_edges (advance_op 1)
           (frontier_edges [[1, 2], [0, 2], [0, 1, 3], [2]] [0, 1, 2, 3])
           (kcore_reset [[1, 2], [0, 2], [0, 1, 3], [2]]
              (kcore_init [[1, 2], [0, 2], [0, 1, 3], [2]] (kcore_problem_t [0, 0, 0, 0]))))))
   = ([], \<lparr>k_cores = [0, 0, 0, 1], degrees = [2, 2, 2, 1],
             deleted = [False, False, False, True],
             to_be_deleted = [False, False, False, True]\<rparr>) \<and>
   filter_execute (filter_op 1)
     (fst (advance_edges (advance_op 1)
        (frontier_edges [[1, 2], [0, 2], [0, 1, 3], [2]] [0, 1, 2, 3] @
         frontier_edges [[1, 2], [0, 2], [0, 1, 3], [2]] [0, 1, 2, 3])
        (kcore_reset [[1, 2], [0, 2], [0, 1, 3], [2]]
           (kcore_init [[1, 2], [0, 2], [0, 1, 3], [2]] (kcore_problem_t [0, 0, 0, 0])))))
     (mark_deleted [[1, 2], [0, 2], [0, 1, 3], [2]]
        (snd (advance_edges (advance_op 1)
           (frontier_edges [[1, 2], [0, 2], [0, 1, 3], [2]] [0, 1, 2, 3] @
            frontier_edges [[1, 2], [0, 2], [0, 1, 3], [2]] [0, 1, 2, 3])
           (kcore_reset [[1, 2], [0, 2], [0, 1, 3], [2]]
              (kcore_init [[1, 2], [0, 2], [0, 1, 3], [2]] (kcore_problem_t [0, 0, 0, 0]))))))
   = ([2], \<lparr>k_cores = [0, 0, 0, 1], degrees = [2, 2, 1, 1],
              deleted = [False, False, False, True],
              to_be_deleted = [False, False, False, True]\<rparr>) \<and>
   reference_k_cores [[1, 2], [0, 2], [0, 1, 3], [2]] = [2, 2, 2, 1]"
  by code_simp

text \<open>
  C1, as amended. On every undirected graph (valid identifiers and symmetric adjacency),
  with a result buffer of one entry per vertex and Advance visiting every edge of every
  frontier element exactly once, the k-core run converges, and the core number it reports
  in \<open>k_cores\<close> for every vertex equals the core number that the reference
  repeated-min-degree peeling produces.
\<close>

theorem kcore_matches_reference:
  assumes "undirected g" and "length result_k_cores = length g"
  shows "\<exists>E. kcore_run g result_k_cores = Some E \<and>
             k_cores (problem E) = reference_k_cores g \<and>
             (\<forall>v < length g. k_cores (problem E) ! v = reference_k_cores g ! v)"
proof -
  let ?E0 = "kcore_prepare_frontier g
      \<lparr>problem = kcore_reset g (kcore_init g (kcore_problem_t result_k_cores)),
       frontier = [], iteration = 0\<rparr>"
  have "kcore_inv g (Suc (iteration ?E0)) (problem ?E0)"
    using kcore_start_inv [OF assms] by (simp add: kcore_prepare_frontier_def)
  moreover have "frontier ?E0 = sequence 0 (get_number_of_vertices g)"
    by (simp add: kcore_prepare_frontier_def)
  ultimately obtain E where run: "enact_rounds (kcore_loop g) (kcore_is_converged g) ?E0 = Some E"
    and sz: "kcore_sized g (problem E)"
    and cores: "\<And>v. v < length g \<Longrightarrow> \<exists>c. k_cores (problem E) ! v = int c \<and> core_number_is g v c"
    using kcore_rounds_total [OF assms(1), of ?E0] by blast
  have nth: "k_cores (problem E) ! v = reference_k_cores g ! v" if v: "v < length g" for v
  proof -
    obtain c where c: "k_cores (problem E) ! v = int c" "core_number_is g v c"
      using cores [OF v] by blast
    obtain c' where c': "reference_k_cores g ! v = int c'" "core_number_is g v c'"
      using reference_k_cores_correct(2) [OF v] by blast
    show ?thesis using c c' core_number_unique by auto
  qed
  have "k_cores (problem E) = reference_k_cores g"
    using sz reference_k_cores_correct(1) [of g] nth
    by (intro nth_equalityI) (simp_all add: kcore_sized_def)
  then show ?thesis using run by (simp add: kcore_run_def kcore_enact_def)
qed

theorem kcore_matches_reference_witness:
  "undirected [[1, 2], [0, 2], [0, 1]] \<and>
   length [0, 0, 0 :: int] = length [[1, 2], [0, 2], [0, 1 :: nat]] \<and>
   reference_k_cores [[1, 2], [0, 2], [0, 1]] = [2, 2, 2] \<and>
   (\<exists>E. kcore_run [[1, 2], [0, 2], [0, 1]] [0, 0, 0] = Some E \<and>
        k_cores (problem E) = [2, 2, 2])"
proof -
  let ?g = "[[1, 2], [0, 2], [0, 1 :: nat]]"
  have u: "undirected ?g" by (simp add: undirected_def valid_graph_def upt_rec)
  have l: "length [0, 0, 0 :: int] = length ?g" by simp
  have r: "reference_k_cores ?g = [2, 2, 2]" by code_simp
  from kcore_matches_reference [OF u l]
  obtain E where "kcore_run ?g [0, 0, 0] = Some E" "k_cores (problem E) = reference_k_cores ?g"
    by blast
  then have "\<exists>E. kcore_run ?g [0, 0, 0] = Some E \<and> k_cores (problem E) = [2, 2, 2]"
    using r by auto
  with u l r show ?thesis by blast
qed

text \<open>
  C1 as stated fails: well-formed means valid identifiers, and on the graph with the single
  directed edge from 0 to 1, whose identifiers are valid, \<open>reset\<close> takes the number of
  out-neighbours as the degree and deletes vertex 1, \<open>advance_op\<close> gives vertex 0 the core
  number 1, and the run converges with \<open>k_cores = [1, 0]\<close>, while the reference peeling
  gives \<open>[0, 0]\<close>.
\<close>

theorem kcore_directed_graph_counterexample:
  "valid_graph [[1], []] \<and>
   kcore_run [[1], []] [0, 0] =
     Some \<lparr>problem = \<lparr>k_cores = [1, 0], degrees = [1, 0], deleted = [True, True],
                      to_be_deleted = [True, False]\<rparr>,
           frontier = [0, 1], iteration = 1\<rparr> \<and>
   reference_k_cores [[1], []] = [0, 0] \<and>
   k_cores (problem \<lparr>problem = \<lparr>k_cores = [1, 0], degrees = [1, 0], deleted = [True, True],
                      to_be_deleted = [True, False]\<rparr>,
           frontier = [0, 1], iteration = 1 :: nat\<rparr>) ! 0
     \<noteq> reference_k_cores [[1], []] ! 0"
proof -
  have v: "valid_graph [[1], []]" by (simp add: valid_graph_def)
  have r: "kcore_run [[1], []] [0, 0] =
     Some \<lparr>problem = \<lparr>k_cores = [1, 0], degrees = [1, 0], deleted = [True, True],
                      to_be_deleted = [True, False]\<rparr>,
           frontier = [0, 1], iteration = 1\<rparr>"
    by code_simp
  have c: "reference_k_cores [[1], []] = [0, 0]" by code_simp
  show ?thesis using v r c by simp
qed

end
